theory Spec2Isabelle
  imports Main "HOL-Library.Monad_Syntax"
begin

section \<open>Cold email automation: the sheet classifier and the send loop\<close>

text \<open>
  The program is one script, \<^verbatim>\<open>send_email.py\<close>. Its core starts where the rows of the
  sheet have been fetched (\<^verbatim>\<open>all_data = sheet.get_all_values()\<close>) and has four phases,
  named here after the script's own section comments: the column scan, the preparation
  of the records, the SMTP login and the send loop. The phases are embedded as HOL
  functions; the user interface, the mail server, the email library and the remote sheet
  are an event trace, a store of cells and an environment that says which of their calls
  raise.
\<close>

subsection \<open>Strings\<close>

text \<open>
  A cell is a Python \<^verbatim>\<open>str\<close>. It is modelled as a \<^typ>\<open>string\<close> whose characters are
  the code points below 256, one \<^typ>\<open>char\<close> each; text with a code point from 256 on
  is outside the model. On these code points \<^verbatim>\<open>str.isspace\<close>, which \<^verbatim>\<open>str.strip\<close>
  trims by, holds for 9 to 13, 28 to 32, 0x85 and 0xA0, and \<^verbatim>\<open>str.lower\<close> adds 32 to
  the letters A to Z and to 0xC0 to 0xDE without 0xD7.
\<close>

type_synonym cell = string
type_synonym row = "cell list"
type_synonym grid = "row list"

definition whitespace :: "char list" where
  "whitespace = [CHR 0x09, CHR 0x0A, CHR 0x0B, CHR 0x0C, CHR 0x0D,
                 CHR 0x1C, CHR 0x1D, CHR 0x1E, CHR 0x1F, CHR '' '', CHR 0x85, CHR 0xA0]"

definition isspace :: "char \<Rightarrow> bool" where
  "isspace c = (c \<in> set whitespace)"

definition latin_upper :: "char list" where
  "latin_upper =
     [CHR 0xC0, CHR 0xC1, CHR 0xC2, CHR 0xC3, CHR 0xC4, CHR 0xC5, CHR 0xC6, CHR 0xC7,
      CHR 0xC8, CHR 0xC9, CHR 0xCA, CHR 0xCB, CHR 0xCC, CHR 0xCD, CHR 0xCE, CHR 0xCF,
      CHR 0xD0, CHR 0xD1, CHR 0xD2, CHR 0xD3, CHR 0xD4, CHR 0xD5, CHR 0xD6, CHR 0xD8,
      CHR 0xD9, CHR 0xDA, CHR 0xDB, CHR 0xDC, CHR 0xDD, CHR 0xDE]"

definition latin_lower :: "char list" where
  "latin_lower =
     [CHR 0xE0, CHR 0xE1, CHR 0xE2, CHR 0xE3, CHR 0xE4, CHR 0xE5, CHR 0xE6, CHR 0xE7,
      CHR 0xE8, CHR 0xE9, CHR 0xEA, CHR 0xEB, CHR 0xEC, CHR 0xED, CHR 0xEE, CHR 0xEF,
      CHR 0xF0, CHR 0xF1, CHR 0xF2, CHR 0xF3, CHR 0xF4, CHR 0xF5, CHR 0xF6, CHR 0xF8,
      CHR 0xF9, CHR 0xFA, CHR 0xFB, CHR 0xFC, CHR 0xFD, CHR 0xFE]"

definition lower_char :: "char \<Rightarrow> char" where
  "lower_char c =
     (case map_of (zip ''ABCDEFGHIJKLMNOPQRSTUVWXYZ'' ''abcdefghijklmnopqrstuvwxyz'') c of
        Some d \<Rightarrow> d
      | None \<Rightarrow> (case map_of (zip latin_upper latin_lower) c of Some d \<Rightarrow> d | None \<Rightarrow> c))"

definition lower :: "string \<Rightarrow> string" where
  "lower s = map lower_char s"

definition strip :: "string \<Rightarrow> string" where
  "strip s = rev (dropWhile isspace (rev (dropWhile isspace s)))"

text \<open>\<^verbatim>\<open>str(cell).strip().lower()\<close>, the normal form under which labels are compared.\<close>

definition normalize :: "cell \<Rightarrow> string" where
  "normalize c = lower (strip c)"

text \<open>
  \<^verbatim>\<open>s.replace(old, new)\<close>: the occurrences of \<open>old\<close> are found from the left and do not
  overlap. After a match at the head the scan goes on behind the match, that is
  \<open>length old - 1\<close> characters into the tail. For an empty \<open>old\<close> Python puts \<open>new\<close>
  before every character and at the end.
\<close>

fun replace_from :: "string \<Rightarrow> string \<Rightarrow> string \<Rightarrow> string" where
  "replace_from [] old new = []"
| "replace_from (c # cs) old new =
     (if take (length old) (c # cs) = old
      then new @ replace_from (drop (length old - 1) cs) old new
      else c # replace_from cs old new)"

definition py_replace :: "string \<Rightarrow> string \<Rightarrow> string \<Rightarrow> string" where
  "py_replace s old new =
     (if old = [] then new @ concat (map (\<lambda>c. c # new) s) else replace_from s old new)"

subsection \<open>Lists\<close>

text \<open>
  \<^verbatim>\<open>xs.index(x)\<close> is the first position of \<open>x\<close>, and raises ValueError when there is
  none; \<^verbatim>\<open>xs[i]\<close> counts a negative \<open>i\<close> from the end and raises IndexError out of
  range. Both errors are the value \<open>None\<close>.
\<close>

fun py_index :: "'a list \<Rightarrow> 'a \<Rightarrow> nat option" where
  "py_index [] x = None"
| "py_index (y # ys) x = (if y = x then Some 0 else map_option Suc (py_index ys x))"

definition py_nth :: "'a list \<Rightarrow> int \<Rightarrow> 'a option" where
  "py_nth xs i =
     (if 0 \<le> i then (if i < int (length xs) then Some (xs ! nat i) else None)
      else (if - int (length xs) \<le> i then Some (xs ! nat (int (length xs) + i)) else None))"

subsection \<open>Scan Columns\<close>

text \<open>
  The five variables the scan sets. The indices are Python integers, with \<open>-1\<close> for
  "not found"; \<open>header_row_num\<close> is the 1-based number of the header row.
\<close>

record columns =
  name_idx :: int
  email_idx :: int
  status_idx :: int
  business_idx :: int
  header_row_num :: nat

definition no_columns :: columns where
  "no_columns = \<lparr>name_idx = -1, email_idx = -1, status_idx = -1, business_idx = -1,
                  header_row_num = 0\<rparr>"

text \<open>
  The loop \<^verbatim>\<open>for i, row in enumerate(all_data)\<close> that breaks at the first row holding
  both labels; \<open>i\<close> is the position of the row at the head of the list.
\<close>

fun scan_columns :: "nat \<Rightarrow> grid \<Rightarrow> columns option" where
  "scan_columns i [] = Some no_columns"
| "scan_columns i (row # rest) =
     (let row_lower = map normalize row in
      if ''name'' \<in> set row_lower \<and> ''email'' \<in> set row_lower then
        do {
          n \<leftarrow> py_index row_lower ''name'';
          e \<leftarrow> py_index row_lower ''email'';
          s \<leftarrow> (if ''status'' \<in> set row_lower then py_index row_lower ''status''
                else Some (length row));
          b \<leftarrow> (if ''business name'' \<in> set row_lower
                then map_option int (py_index row_lower ''business name'')
                else Some (- 1));
          Some \<lparr>name_idx = int n, email_idx = int e, status_idx = int s, business_idx = b,
                header_row_num = i + 1\<rparr>
        }
      else scan_columns (i + 1) rest)"

subsection \<open>Prepare Records\<close>

record contact =
  Name :: string
  Email :: string
  Business :: string
  Status :: string
  row_number :: nat

text \<open>
  The loop \<^verbatim>\<open>for i, row in enumerate(all_data[header_row_num:], start=header_row_num + 1)\<close>;
  \<open>i\<close> is the row number of the row at the head of the list. Python's \<^verbatim>\<open>and\<close> reads
  the email cell only when the row is long enough.
\<close>

fun prepare_records :: "columns \<Rightarrow> nat \<Rightarrow> grid \<Rightarrow> contact list option" where
  "prepare_records c i [] = Some []"
| "prepare_records c i (row # rest) =
     (if int (length row) > max (name_idx c) (email_idx c) then
        do {
          em \<leftarrow> py_nth row (email_idx c);
          if strip em \<noteq> [] then
            do {
              nm \<leftarrow> py_nth row (name_idx c);
              bz \<leftarrow> (if business_idx c \<noteq> - 1 \<and> int (length row) > business_idx c
                     then py_nth row (business_idx c) else Some []);
              stt \<leftarrow> (if int (length row) > status_idx c then py_nth row (status_idx c)
                      else Some []);
              rs \<leftarrow> prepare_records c (i + 1) rest;
              Some (\<lparr>Name = nm, Email = em, Business = bz, Status = stt, row_number = i\<rparr> # rs)
            }
          else prepare_records c (i + 1) rest
        }
      else prepare_records c (i + 1) rest)"

subsection \<open>The outside world\<close>

text \<open>
  What the script does to the outside is recorded as events, in the order of the calls:
  the messages it shows, the SMTP login, each call of \<^verbatim>\<open>server.send_message\<close>, each
  call of \<^verbatim>\<open>sheet.update_cell\<close>, each \<^verbatim>\<open>time.sleep(1.5)\<close> and the final
  \<^verbatim>\<open>server.quit\<close>. The progress bar and the balloons are left out. The remote sheet is a
  store from (row, column), both 1-based, to the text of the cell. A call of
  \<^verbatim>\<open>update_cell\<close> that returns is the event \<open>UpdateCell\<close> and updates the store; a call
  that raises is the event \<open>UpdateRaised\<close> and leaves the store as it was.

  Which calls raise is decided by the environment:
  \<^item> \<open>login_ok\<close>: the SMTP connection and login return;
  \<^item> \<open>header_ok name value\<close>: the email library accepts \<^verbatim>\<open>msg[name] = value\<close>. It
    refuses a value with a line break (ValueError) and, by its version, some other
    values; which ones is left to the environment;
  \<^item> \<open>send_ok idx\<close>: \<^verbatim>\<open>send_message\<close> returns for the record at position \<open>idx\<close> of the
    record list;
  \<^item> \<open>write_ok idx v\<close>: \<^verbatim>\<open>update_cell\<close> returns when it writes \<open>v\<close> for that record.
\<close>

record email_message =
  From :: string
  To :: string
  Subject :: string
  Content :: string

datatype report =
    ErrMissingColumns
  | WarnNoContacts
  | FoundContacts nat
  | LoggingIn string
  | ErrSmtpLogin
  | Skipping string
  | Sending string
  | SentTo string string
  | FailedTo string
  | AllFinished

datatype event =
    Ui report
  | SmtpConnect
  | SendMessage email_message
  | UpdateCell nat int string
  | UpdateRaised nat int string
  | Sleep
  | SmtpQuit

type_synonym sheet_store = "nat \<times> int \<Rightarrow> string option"

record run_state =
  sheet :: sheet_store
  trace :: "event list"

record config =
  LOGIN_EMAIL :: string
  email_subject :: string
  email_body :: string

record environ =
  login_ok :: bool
  header_ok :: "string \<Rightarrow> string \<Rightarrow> bool"
  send_ok :: "nat \<Rightarrow> bool"
  write_ok :: "nat \<Rightarrow> string \<Rightarrow> bool"

text \<open>
  The errors that end the run: \<open>ValueError\<close> of \<^verbatim>\<open>list.index\<close>, \<open>IndexError\<close> of an
  index out of range, \<open>HeaderError\<close> for whatever the email library raises on a header it
  refuses, \<open>SheetError\<close> for whatever \<^verbatim>\<open>update_cell\<close> raises.
\<close>

datatype py_error = ValueError | IndexError | HeaderError | SheetError

definition emit :: "event \<Rightarrow> run_state \<Rightarrow> run_state" where
  "emit e st = st\<lparr>trace := trace st @ [e]\<rparr>"

definition update_cell :: "nat \<Rightarrow> int \<Rightarrow> string \<Rightarrow> run_state \<Rightarrow> run_state" where
  "update_cell r col v st =
     st\<lparr>sheet := (sheet st)((r, col) \<mapsto> v), trace := trace st @ [UpdateCell r col v]\<rparr>"

subsection \<open>Send Loop\<close>

text \<open>The status test of the loop: \<^verbatim>\<open>str(record["Status"]).strip().lower() == "sent"\<close>.\<close>

definition already_sent :: "contact \<Rightarrow> bool" where
  "already_sent record = (lower (strip (Status record)) = ''sent'')"

text \<open>\<^verbatim>\<open>email_body.replace("{name}", name).replace("{business}", business)\<close>\<close>

definition render_body :: "string \<Rightarrow> string \<Rightarrow> string \<Rightarrow> string" where
  "render_body body name business =
     py_replace (py_replace body ''{name}'' name) ''{business}'' business"

text \<open>
  The message of a record, and whether the email library accepts its three headers, which
  the script sets one after the other before the \<^verbatim>\<open>try\<close>.
\<close>

definition build_message :: "config \<Rightarrow> contact \<Rightarrow> email_message" where
  "build_message cfg record =
     \<lparr>From = LOGIN_EMAIL cfg,
      To = strip (Email record),
      Subject = email_subject cfg,
      Content = render_body (email_body cfg) (strip (Name record)) (strip (Business record))\<rparr>"

definition message_ok :: "config \<Rightarrow> environ \<Rightarrow> contact \<Rightarrow> bool" where
  "message_ok cfg env record =
     (header_ok env ''From'' (LOGIN_EMAIL cfg) \<and>
      header_ok env ''To'' (strip (Email record)) \<and>
      header_ok env ''Subject'' (email_subject cfg))"

text \<open>
  One pass of the loop body for the record at position \<open>idx\<close>; the first component of
  the result is the error that leaves the loop, if any. A record already sent leaves the
  body at \<^verbatim>\<open>continue\<close>. Otherwise the message is built, outside the \<^verbatim>\<open>try\<close>: a refused
  header ends the run. The \<^verbatim>\<open>try\<close> sends and writes \<open>Sent\<close>. When the send or that write
  raises, the handler writes \<open>Failed\<close>; when this write raises too, the run ends. A pass
  that has not raised ends with the sleep.
\<close>

definition process_record ::
    "config \<Rightarrow> environ \<Rightarrow> int \<Rightarrow> nat \<Rightarrow> contact \<Rightarrow> run_state \<Rightarrow> py_error option \<times> run_state"
  where
  "process_record cfg env sidx idx record st =
     (let name = strip (Name record);
          email = strip (Email record);
          row_num = row_number record
      in
      if already_sent record then (None, emit (Ui (Skipping name)) st)
      else
        let st1 = emit (Ui (Sending name)) st in
        if \<not> message_ok cfg env record then (Some HeaderError, st1)
        else
          let st2 = emit (SendMessage (build_message cfg record)) st1 in
          if send_ok env idx \<and> write_ok env idx ''Sent''
          then (None, emit Sleep (emit (Ui (SentTo name email))
                                   (update_cell row_num (sidx + 1) ''Sent'' st2)))
          else
            let st3 = (if send_ok env idx
                       then emit (UpdateRaised row_num (sidx + 1) ''Sent'') st2 else st2)
            in
            if write_ok env idx ''Failed''
            then (None, emit Sleep (emit (Ui (FailedTo name))
                                     (update_cell row_num (sidx + 1) ''Failed'' st3)))
            else (Some SheetError, emit (UpdateRaised row_num (sidx + 1) ''Failed'') st3))"

fun send_loop ::
    "config \<Rightarrow> environ \<Rightarrow> int \<Rightarrow> nat \<Rightarrow> contact list \<Rightarrow> run_state \<Rightarrow> py_error option \<times> run_state"
  where
  "send_loop cfg env sidx idx [] st = (None, st)"
| "send_loop cfg env sidx idx (record # rest) st =
     (case process_record cfg env sidx idx record st of
        (None, st') \<Rightarrow> send_loop cfg env sidx (idx + 1) rest st'
      | (Some e, st') \<Rightarrow> (Some e, st'))"

subsection \<open>The whole run\<close>

datatype outcome =
    MissingColumns
  | NoContacts
  | SmtpLoginError
  | Crashed py_error
  | Completed

text \<open>
  The handler of the send button from the column scan on. \<^verbatim>\<open>st.stop()\<close> ends the run:
  the outcome says at which stop, that an error ended the run, or that the script ran to
  its end.
\<close>

definition send_emails :: "config \<Rightarrow> environ \<Rightarrow> grid \<Rightarrow> run_state \<Rightarrow> outcome \<times> run_state" where
  "send_emails cfg env all_data st =
     (case scan_columns 0 all_data of
        None \<Rightarrow> (Crashed ValueError, st)
      | Some c \<Rightarrow>
          if name_idx c = - 1 \<or> email_idx c = - 1
          then (MissingColumns, emit (Ui ErrMissingColumns) st)
          else
            (case prepare_records c (header_row_num c + 1) (drop (header_row_num c) all_data) of
               None \<Rightarrow> (Crashed IndexError, st)
             | Some records \<Rightarrow>
                 if records = [] then (NoContacts, emit (Ui WarnNoContacts) st)
                 else
                   let st1 = emit (Ui (FoundContacts (length records))) st;
                       st2 = emit SmtpConnect (emit (Ui (LoggingIn (LOGIN_EMAIL cfg))) st1)
                   in
                   if \<not> login_ok env then (SmtpLoginError, emit (Ui ErrSmtpLogin) st2)
                   else
                     (case send_loop cfg env (status_idx c) 0 records st2 of
                        (Some e, st3) \<Rightarrow> (Crashed e, st3)
                      | (None, st3) \<Rightarrow> (Completed, emit (Ui AllFinished) (emit SmtpQuit st3)))))"

subsection \<open>Predicates of the statements\<close>

text \<open>
  The test of the scan on a row, the position a label is resolved to, the test of the
  record loop on a row, the record the loop builds from a row it keeps, and the records
  it keeps from the rows after a header row with number \<open>h\<close>.
\<close>

definition is_header_row :: "row \<Rightarrow> bool" where
  "is_header_row row =
     (''name'' \<in> set (map normalize row) \<and> ''email'' \<in> set (map normalize row))"

definition leftmost :: "row \<Rightarrow> string \<Rightarrow> int \<Rightarrow> bool" where
  "leftmost row label idx =
     (0 \<le> idx \<and> nat idx < length row \<and> normalize (row ! nat idx) = label \<and>
      (\<forall>j < nat idx. normalize (row ! j) \<noteq> label))"

definition qualifies :: "columns \<Rightarrow> row \<Rightarrow> bool" where
  "qualifies c row =
     (int (length row) > max (name_idx c) (email_idx c) \<and> strip (row ! nat (email_idx c)) \<noteq> [])"

definition contact_of :: "columns \<Rightarrow> nat \<Rightarrow> row \<Rightarrow> contact" where
  "contact_of c i row =
     \<lparr>Name = row ! nat (name_idx c),
      Email = row ! nat (email_idx c),
      Business = (if business_idx c \<noteq> - 1 \<and> int (length row) > business_idx c
                  then row ! nat (business_idx c) else []),
      Status = (if int (length row) > status_idx c then row ! nat (status_idx c) else []),
      row_number = i\<rparr>"

definition records_after :: "columns \<Rightarrow> nat \<Rightarrow> grid \<Rightarrow> contact list" where
  "records_after c h g =
     map (\<lambda>(j, row). contact_of c j row)
       (filter (\<lambda>(j, row). qualifies c row) (zip [h + 1..<h + 1 + length (drop h g)] (drop h g)))"

text \<open>
  A small run for the examples. The email library of the example refuses the header
  values with a line feed or a carriage return; the send of the third record fails.
\<close>

definition no_line_breaks :: "string \<Rightarrow> bool" where
  "no_line_breaks v = (CHR 0x0A \<notin> set v \<and> CHR 0x0D \<notin> set v)"

definition demo_cfg :: config where
  "demo_cfg = \<lparr>LOGIN_EMAIL = ''me@x.com'', email_subject = ''Hello'',
               email_body = ''Hi {name}, re {business}''\<rparr>"

definition demo_env :: environ where
  "demo_env = \<lparr>login_ok = True, header_ok = (\<lambda>h v. no_line_breaks v),
               send_ok = (\<lambda>i. i \<noteq> 2), write_ok = (\<lambda>i v. True)\<rparr>"

definition demo_state :: run_state where
  "demo_state = \<lparr>sheet = Map.empty, trace = []\<rparr>"

text \<open>
  The events of one pass of the loop body and the error it leaves the loop with, read off
  a pass that starts with an empty trace; the events of the loop, which ends at the first
  pass that raises; the error of the loop; and the sheet after a sequence of events, of
  which only the calls of \<^verbatim>\<open>update_cell\<close> that returned change a cell.
\<close>

definition record_events :: "config \<Rightarrow> environ \<Rightarrow> int \<Rightarrow> nat \<Rightarrow> contact \<Rightarrow> event list" where
  "record_events cfg env sidx idx r =
     trace (snd (process_record cfg env sidx idx r \<lparr>sheet = Map.empty, trace = []\<rparr>))"

definition pass_error :: "config \<Rightarrow> environ \<Rightarrow> nat \<Rightarrow> contact \<Rightarrow> py_error option" where
  "pass_error cfg env idx r =
     fst (process_record cfg env 0 idx r \<lparr>sheet = Map.empty, trace = []\<rparr>)"

fun loop_events :: "config \<Rightarrow> environ \<Rightarrow> int \<Rightarrow> nat \<Rightarrow> contact list \<Rightarrow> event list" where
  "loop_events cfg env sidx idx [] = []"
| "loop_events cfg env sidx idx (r # rs) =
     record_events cfg env sidx idx r @
     (case pass_error cfg env idx r of
        None \<Rightarrow> loop_events cfg env sidx (idx + 1) rs
      | Some e \<Rightarrow> [])"

fun loop_error :: "config \<Rightarrow> environ \<Rightarrow> nat \<Rightarrow> contact list \<Rightarrow> py_error option" where
  "loop_error cfg env idx [] = None"
| "loop_error cfg env idx (r # rs) =
     (case pass_error cfg env idx r of
        None \<Rightarrow> loop_error cfg env (idx + 1) rs
      | Some e \<Rightarrow> Some e)"

fun sheet_after :: "event list \<Rightarrow> sheet_store \<Rightarrow> sheet_store" where
  "sheet_after [] s = s"
| "sheet_after (UpdateCell r col v # es) s = sheet_after es (s((r, col) \<mapsto> v))"
| "sheet_after (e # es) s = sheet_after es s"

fun is_send :: "event \<Rightarrow> bool" where
  "is_send (SendMessage m) = True"
| "is_send e = False"

fun is_sleep :: "event \<Rightarrow> bool" where
  "is_sleep Sleep = True"
| "is_sleep e = False"

text \<open>A call of \<^verbatim>\<open>update_cell\<close>, whether it returned or raised.\<close>

fun is_write :: "event \<Rightarrow> bool" where
  "is_write (UpdateCell r col v) = True"
| "is_write (UpdateRaised r col v) = True"
| "is_write e = False"


definition pass_returns :: "config \<Rightarrow> environ \<Rightarrow> nat \<Rightarrow> contact \<Rightarrow> bool" where
  "pass_returns cfg env idx r =
     (if already_sent r then True
      else message_ok cfg env r \<and>
           (if send_ok env idx \<and> write_ok env idx ''Sent'' then True
            else write_ok env idx ''Failed''))"

text \<open>
  The sheet of the examples: a line of notes above the header row, a contact to send to,
  a contact already sent, a row without an address, and a contact whose send fails.
\<close>

definition demo_grid :: grid where
  "demo_grid =
     [[''Leads''],
      [''Name'', ''Email'', ''Business Name'', ''Status''],
      [''Ana'', ''ana@x.com'', ''Acme'', []],
      [''Bob'', ''bob@x.com'', ''Bolt'', '' SENT ''],
      [''Cy'', '' ''],
      [''Dan'', ''dan@x.com'', ''Dune'', ''failed'']]"

definition demo_columns :: columns where
  "demo_columns = \<lparr>name_idx = 0, email_idx = 1, status_idx = 3, business_idx = 2,
                    header_row_num = 2\<rparr>"

definition demo_records :: "contact list" where
  "demo_records =
     [\<lparr>Name = ''Ana'', Email = ''ana@x.com'', Business = ''Acme'', Status = [], row_number = 3\<rparr>,
      \<lparr>Name = ''Bob'', Email = ''bob@x.com'', Business = ''Bolt'', Status = '' SENT '',
        row_number = 4\<rparr>,
      \<lparr>Name = ''Dan'', Email = ''dan@x.com'', Business = ''Dune'', Status = ''failed'',
        row_number = 6\<rparr>]"

text \<open>
  Three more environments for the examples: in the first every send fails and every call
  of \<^verbatim>\<open>update_cell\<close> raises; in the second every send is delivered and \<^verbatim>\<open>update_cell\<close>
  raises when it is to write \<open>Sent\<close> and returns otherwise; in the third every send fails
  and every call of \<^verbatim>\<open>update_cell\<close> returns.
\<close>

definition sheet_down_env :: environ where
  "sheet_down_env = \<lparr>login_ok = True, header_ok = (\<lambda>h v. no_line_breaks v),
                      send_ok = (\<lambda>i. False), write_ok = (\<lambda>i v. False)\<rparr>"



text \<open>A sheet with one contact whose name cell is blank.\<close>

definition blank_name_grid :: grid where
  "blank_name_grid = [[''Name'', ''Email'', ''Status''], ['' '', ''eve@x.com'', ''failed'']]"

text \<open>
  The substitution as the specification words it, to compare the rendering with: the
  template is read once from the left, a token at the head is replaced by its value and
  the reading goes on behind the token, and a character that starts no token is copied.
  The values are not read again. \<open>substitute_both\<close> does this for two tokens \<open>t1\<close> and
  \<open>t2\<close>, \<open>substitute_tokens\<close> for the tokens \<open>{name}\<close> and \<open>{business}\<close>.
\<close>

fun substitute_both :: "string \<Rightarrow> string \<Rightarrow> string \<Rightarrow> string \<Rightarrow> string \<Rightarrow> string" where
  "substitute_both t1 t2 [] v1 v2 = []"
| "substitute_both t1 t2 (c # cs) v1 v2 =
     (if take (length t1) (c # cs) = t1
      then v1 @ substitute_both t1 t2 (drop (length t1 - 1) cs) v1 v2
      else if take (length t2) (c # cs) = t2
      then v2 @ substitute_both t1 t2 (drop (length t2 - 1) cs) v1 v2
      else c # substitute_both t1 t2 cs v1 v2)"

definition substitute_tokens :: "string \<Rightarrow> string \<Rightarrow> string \<Rightarrow> string" where
  "substitute_tokens body name business =
     substitute_both ''{name}'' ''{business}'' body name business"

text \<open>
  Two strings meet when a piece at the end of the first, not empty, starts with the second
  or is a piece at the start of the second. A name that meets \<open>{business}\<close>, or that
  \<open>{business}\<close> meets, can complete a \<open>{business}\<close> that the template does not have.
\<close>

fun meets :: "string \<Rightarrow> string \<Rightarrow> bool" where
  "meets [] ys = False"
| "meets (x # xs) ys =
     (take (length ys) (x # xs) = ys \<or> take (length (x # xs)) ys = x # xs \<or> meets xs ys)"

section \<open>Properties\<close>

subsection \<open>The column scan\<close>

lemma py_index_first:
  "x \<in> set xs \<Longrightarrow>
   \<exists>n. py_index xs x = Some n \<and> n < length xs \<and> xs ! n = x \<and> (\<forall>j<n. xs ! j \<noteq> x)"
proof (induction xs)
  case Nil
  then show ?case by simp
next
  case (Cons y ys)
  show ?case
  proof (cases "y = x")
    case True
    then show ?thesis by simp
  next
    case False
    with Cons.prems have "x \<in> set ys" by simp
    from Cons.IH [OF this] obtain n where
      n: "py_index ys x = Some n" "n < length ys" "ys ! n = x" "\<forall>j<n. ys ! j \<noteq> x"
      by blast
    have "\<forall>j<Suc n. (y # ys) ! j \<noteq> x"
      using n(4) False by (auto simp: nth_Cons split: nat.splits)
    with n False show ?thesis by simp
  qed
qed

lemma py_index_leftmost:
  assumes "label \<in> set (map normalize row)"
  shows "\<exists>n. py_index (map normalize row) label = Some n \<and> leftmost row label (int n)"
proof -
  from py_index_first [OF assms] obtain n where
    n: "py_index (map normalize row) label = Some n" "n < length (map normalize row)"
       "map normalize row ! n = label" "\<forall>j<n. map normalize row ! j \<noteq> label"
    by blast
  have "leftmost row label (int n)"
    using n(2-4) by (auto simp: leftmost_def)
  with n(1) show ?thesis by blast
qed

lemma scan_columns_no_header:
  "\<forall>row \<in> set g. \<not> is_header_row row \<Longrightarrow> scan_columns i g = Some no_columns"
  by (induction g arbitrary: i) (auto simp: is_header_row_def Let_def)

lemma scan_columns_at_header:
  assumes "is_header_row row"
  shows "\<exists>c. scan_columns i (row # rest) = Some c \<and> header_row_num c = i + 1 \<and>
             leftmost row ''name'' (name_idx c) \<and> leftmost row ''email'' (email_idx c) \<and>
             (if ''status'' \<in> set (map normalize row) then leftmost row ''status'' (status_idx c)
              else status_idx c = int (length row)) \<and>
             (if ''business name'' \<in> set (map normalize row)
              then leftmost row ''business name'' (business_idx c)
              else business_idx c = - 1)"
proof -
  from assms have nm: "''name'' \<in> set (map normalize row)"
    and em: "''email'' \<in> set (map normalize row)"
    by (simp_all add: is_header_row_def)
  from py_index_leftmost [OF nm] obtain n where
    n: "py_index (map normalize row) ''name'' = Some n" "leftmost row ''name'' (int n)" by blast
  from py_index_leftmost [OF em] obtain e where
    e: "py_index (map normalize row) ''email'' = Some e" "leftmost row ''email'' (int e)" by blast
  show ?thesis
  proof (cases "''status'' \<in> set (map normalize row)")
    case s: True
    from py_index_leftmost [OF s] obtain k where
      k: "py_index (map normalize row) ''status'' = Some k" "leftmost row ''status'' (int k)"
      by blast
    show ?thesis
    proof (cases "''business name'' \<in> set (map normalize row)")
      case b: True
      from py_index_leftmost [OF b] obtain m where
        m: "py_index (map normalize row) ''business name'' = Some m"
           "leftmost row ''business name'' (int m)"
        by blast
      show ?thesis using nm em s b n e k m by (simp add: Let_def)
    next
      case b: False
      show ?thesis using nm em s b n e k by (simp add: Let_def)
    qed
  next
    case s: False
    show ?thesis
    proof (cases "''business name'' \<in> set (map normalize row)")
      case b: True
      from py_index_leftmost [OF b] obtain m where
        m: "py_index (map normalize row) ''business name'' = Some m"
           "leftmost row ''business name'' (int m)"
        by blast
      show ?thesis using nm em s b n e m by (simp add: Let_def)
    next
      case b: False
      show ?thesis using nm em s b n e by (simp add: Let_def)
    qed
  qed
qed

lemma scan_columns_pass:
  "\<not> is_header_row row \<Longrightarrow> scan_columns i (row # rest) = scan_columns (i + 1) rest"
  by (auto simp: is_header_row_def Let_def)

lemma scan_columns_skip:
  "k \<le> length g \<Longrightarrow> \<forall>j<k. \<not> is_header_row (g ! j) \<Longrightarrow>
   scan_columns i g = scan_columns (i + k) (drop k g)"
proof (induction k arbitrary: i g)
  case 0
  then show ?case by simp
next
  case (Suc k)
  then obtain row rest where g: "g = row # rest" by (cases g) auto
  from Suc.prems g have "\<not> is_header_row row" by auto
  moreover from Suc.prems g have "k \<le> length rest" "\<forall>j<k. \<not> is_header_row (rest ! j)" by auto
  ultimately show ?case using Suc.IH [of rest "i + 1"] g
    by (simp add: scan_columns_pass del: scan_columns.simps)
qed

lemma scan_columns_first:
  assumes "k < length g" "is_header_row (g ! k)" "\<forall>j<k. \<not> is_header_row (g ! j)"
  shows "\<exists>c. scan_columns i g = Some c \<and> header_row_num c = i + k + 1 \<and>
             leftmost (g ! k) ''name'' (name_idx c) \<and> leftmost (g ! k) ''email'' (email_idx c) \<and>
             (if ''status'' \<in> set (map normalize (g ! k))
              then leftmost (g ! k) ''status'' (status_idx c)
              else status_idx c = int (length (g ! k))) \<and>
             (if ''business name'' \<in> set (map normalize (g ! k))
              then leftmost (g ! k) ''business name'' (business_idx c)
              else business_idx c = - 1)"
proof -
  have "scan_columns i g = scan_columns (i + k) (drop k g)"
    using assms(1,3) by (intro scan_columns_skip) simp_all
  also have "drop k g = g ! k # drop (Suc k) g"
    using assms(1) by (simp add: Cons_nth_drop_Suc)
  finally have eq: "scan_columns i g = scan_columns (i + k) (g ! k # drop (Suc k) g)" .
  from scan_columns_at_header [OF assms(2), of "i + k" "drop (Suc k) g"]
  show ?thesis unfolding eq by simp
qed

lemma py_nth_in_range: "0 \<le> i \<Longrightarrow> i < int (length xs) \<Longrightarrow> py_nth xs i = Some (xs ! nat i)"
  by (simp add: py_nth_def)

lemma prepare_records_step:
  assumes "0 \<le> name_idx c" "0 \<le> email_idx c" "0 \<le> status_idx c" "- 1 \<le> business_idx c"
  shows "prepare_records c i (row # rest) =
           (if qualifies c row
            then map_option ((#) (contact_of c i row)) (prepare_records c (i + 1) rest)
            else prepare_records c (i + 1) rest)"
proof (cases "int (length row) > max (name_idx c) (email_idx c)")
  case False
  then show ?thesis by (auto simp: qualifies_def)
next
  case True
  then have em: "py_nth row (email_idx c) = Some (row ! nat (email_idx c))"
    and nm: "py_nth row (name_idx c) = Some (row ! nat (name_idx c))"
    using assms by (simp_all add: py_nth_in_range)
  have bz: "business_idx c \<noteq> - 1 \<and> int (length row) > business_idx c \<Longrightarrow>
            py_nth row (business_idx c) = Some (row ! nat (business_idx c))"
    using assms(4) by (simp add: py_nth_in_range)
  have stt: "int (length row) > status_idx c \<Longrightarrow>
            py_nth row (status_idx c) = Some (row ! nat (status_idx c))"
    using assms(3) by (simp add: py_nth_in_range)
  show ?thesis
    using True em nm bz stt
    by (cases "prepare_records c (i + 1) rest") (auto simp: qualifies_def contact_of_def)
qed

lemma prepare_records_total:
  assumes "0 \<le> name_idx c" "0 \<le> email_idx c" "0 \<le> status_idx c" "- 1 \<le> business_idx c"
  shows "prepare_records c i rows =
           Some (map (\<lambda>(j, row). contact_of c j row)
                  (filter (\<lambda>(j, row). qualifies c row) (zip [i..<i + length rows] rows)))"
proof (induction rows arbitrary: i)
  case Nil
  show ?case by simp
next
  case (Cons row rest)
  have upt: "[i..<i + length (row # rest)] = i # [i + 1..<(i + 1) + length rest]"
    by (subst upt_rec) simp
  show ?case
    unfolding prepare_records_step [OF assms] upt
    using Cons.IH [of "Suc i"] by (simp del: prepare_records.simps upt_Suc)
qed

lemma filter_zip_upt:
  "map fst (filter (\<lambda>(j, x). P x) (zip [i..<i + length xs] xs)) =
   map (\<lambda>k. i + k) (filter (\<lambda>k. P (xs ! k)) [0..<length xs])"
proof (induction xs rule: rev_induct)
  case Nil
  show ?case by simp
next
  case (snoc x xs)
  have "zip [i..<i + length (xs @ [x])] (xs @ [x]) = zip [i..<i + length xs] xs @ [(i + length xs, x)]"
    by simp
  moreover have "filter (\<lambda>k. P ((xs @ [x]) ! k)) [0..<length xs] =
      filter (\<lambda>k. P (xs ! k)) [0..<length xs]"
    by (rule filter_cong) (auto simp: nth_append)
  ultimately show ?case using snoc.IH by simp
qed

lemmas string_ops = normalize_def lower_def strip_def isspace_def whitespace_def lower_char_def
  latin_upper_def latin_lower_def

lemma leftmost_bounds: "leftmost row label idx \<Longrightarrow> 0 \<le> idx \<and> nat idx < length row \<and> normalize (row ! nat idx) = label"
  by (simp add: leftmost_def)

subsection \<open>Header detection\<close>

text \<open>
  Claim C1. The scan goes through the rows from the top. When no row holds both labels
  \<open>name\<close> and \<open>email\<close> (cells trimmed and lowercased), the scan leaves its variables at
  their initial values and the run stops with the missing-columns error: the state only
  gains that error message, no record is built, nothing is sent. When \<open>k\<close> is the first
  row that holds both labels, the scan stops there: \<open>header_row_num\<close> is \<open>k + 1\<close>, the
  name and email indices are positions of that row whose cells normalize to \<open>name\<close> and
  \<open>email\<close>, and the run does not stop with the missing-columns error.
\<close>

theorem header_detection:
  "((\<forall>row \<in> set all_data. \<not> is_header_row row) \<longrightarrow>
      scan_columns 0 all_data = Some no_columns \<and>
      send_emails cfg env all_data st = (MissingColumns, emit (Ui ErrMissingColumns) st)) \<and>
   (k < length all_data \<and> is_header_row (all_data ! k) \<and>
    (\<forall>j<k. \<not> is_header_row (all_data ! j)) \<longrightarrow>
      (\<exists>c. scan_columns 0 all_data = Some c \<and> header_row_num c = k + 1 \<and>
           0 \<le> name_idx c \<and> nat (name_idx c) < length (all_data ! k) \<and>
           normalize (all_data ! k ! nat (name_idx c)) = ''name'' \<and>
           0 \<le> email_idx c \<and> nat (email_idx c) < length (all_data ! k) \<and>
           normalize (all_data ! k ! nat (email_idx c)) = ''email'' \<and>
           fst (send_emails cfg env all_data st) \<noteq> MissingColumns))"
proof (intro conjI impI)
  assume none: "\<forall>row \<in> set all_data. \<not> is_header_row row"
  from scan_columns_no_header [OF this]
  show scan: "scan_columns 0 all_data = Some no_columns" .
  show "send_emails cfg env all_data st = (MissingColumns, emit (Ui ErrMissingColumns) st)"
    by (simp add: send_emails_def scan no_columns_def)
next
  assume "k < length all_data \<and> is_header_row (all_data ! k) \<and>
    (\<forall>j<k. \<not> is_header_row (all_data ! j))"
  then have k: "k < length all_data" "is_header_row (all_data ! k)"
    "\<forall>j<k. \<not> is_header_row (all_data ! j)" by simp_all
  from scan_columns_first [OF k, of 0] obtain c where
    c: "scan_columns 0 all_data = Some c" "header_row_num c = k + 1"
       "leftmost (all_data ! k) ''name'' (name_idx c)"
       "leftmost (all_data ! k) ''email'' (email_idx c)"
    by auto
  note n = leftmost_bounds [OF c(3)] and e = leftmost_bounds [OF c(4)]
  have "fst (send_emails cfg env all_data st) \<noteq> MissingColumns"
    using c(1) n e by (auto simp: send_emails_def Let_def split: option.splits prod.splits)
  with c(1,2) n e
  show "\<exists>c. scan_columns 0 all_data = Some c \<and> header_row_num c = k + 1 \<and>
           0 \<le> name_idx c \<and> nat (name_idx c) < length (all_data ! k) \<and>
           normalize (all_data ! k ! nat (name_idx c)) = ''name'' \<and>
           0 \<le> email_idx c \<and> nat (email_idx c) < length (all_data ! k) \<and>
           normalize (all_data ! k ! nat (email_idx c)) = ''email'' \<and>
           fst (send_emails cfg env all_data st) \<noteq> MissingColumns"
    by blast
qed

theorem header_detection_witness:
  "send_emails demo_cfg
      demo_env
      [[''Name'', ''Phone''], [''Bob'', ''555'']] \<lparr>sheet = Map.empty, trace = []\<rparr> =
     (MissingColumns, \<lparr>sheet = Map.empty, trace = [Ui ErrMissingColumns]\<rparr>) \<and>
   (\<exists>c. scan_columns 0 [[''Contacts''], ['' Name'', ''EMAIL ''], [''Bob'', ''bob@x.com'']] = Some c \<and>
        header_row_num c = 2 \<and>
        normalize ([[''Contacts''], ['' Name'', ''EMAIL ''], [''Bob'', ''bob@x.com'']] ! 1 !
          nat (name_idx c)) = ''name'' \<and>
        normalize ([[''Contacts''], ['' Name'', ''EMAIL ''], [''Bob'', ''bob@x.com'']] ! 1 !
          nat (email_idx c)) = ''email'')"
proof -
  let ?A = "[[''Name'', ''Phone''], [''Bob'', ''555'']]"
  let ?B = "[[''Contacts''], ['' Name'', ''EMAIL ''], [''Bob'', ''bob@x.com'']]"
  let ?cfg = demo_cfg
  let ?env = demo_env
  let ?st = "\<lparr>sheet = Map.empty, trace = []\<rparr>"
  have a: "\<forall>row \<in> set ?A. \<not> is_header_row row"
    by (simp add: is_header_row_def string_ops)
  have b: "(1::nat) < length ?B \<and> is_header_row (?B ! 1) \<and> (\<forall>j<1. \<not> is_header_row (?B ! j))"
    by (simp add: is_header_row_def string_ops)
  note none = mp [OF conjunct1 [OF header_detection [where all_data = ?A and k = 0
     and cfg = ?cfg and env = ?env and st = ?st]] a]
  from conjunct2 [OF none]
  have 1: "send_emails ?cfg ?env ?A ?st =
      (MissingColumns, \<lparr>sheet = Map.empty, trace = [Ui ErrMissingColumns]\<rparr>)"
    by (simp add: emit_def)
  note found = mp [OF conjunct2 [OF header_detection [where k = 1 and all_data = ?B
     and cfg = ?cfg and env = ?env and st = ?st]] b]
  from found obtain c where c: "scan_columns 0 ?B = Some c" "header_row_num c = 1 + 1"
    "normalize (?B ! 1 ! nat (name_idx c)) = ''name''"
    "normalize (?B ! 1 ! nat (email_idx c)) = ''email''"
    by (elim exE conjE)
  from c(2) have "header_row_num c = 2" by simp
  with c(1,3,4) have "\<exists>c. scan_columns 0 ?B = Some c \<and> header_row_num c = 2 \<and>
      normalize (?B ! 1 ! nat (name_idx c)) = ''name'' \<and>
      normalize (?B ! 1 ! nat (email_idx c)) = ''email''"
    by (intro exI conjI)
  with 1 show ?thesis by (rule conjI)
qed

lemma leftmost_unique:
  assumes a: "leftmost row label i" and b: "leftmost row label j"
  shows "i = j"
proof -
  have ai: "0 \<le> i" "normalize (row ! nat i) = label" "\<forall>m < nat i. normalize (row ! m) \<noteq> label"
    using a by (simp_all add: leftmost_def)
  have bj: "0 \<le> j" "normalize (row ! nat j) = label" "\<forall>m < nat j. normalize (row ! m) \<noteq> label"
    using b by (simp_all add: leftmost_def)
  have "\<not> nat i < nat j" using bj(3) ai(2) by blast
  moreover have "\<not> nat j < nat i" using ai(3) bj(2) by blast
  ultimately show "i = j" using ai(1) bj(1) by arith
qed

subsection \<open>Duplicate header labels\<close>

text \<open>
  Claim C10. Let \<open>k\<close> be the first row that holds both required labels. For each of the
  labels \<open>name\<close>, \<open>email\<close>, \<open>status\<close> and \<open>business name\<close> that some cell of that row
  normalizes to, the index the scan stores is the leftmost such cell: the cell there
  normalizes to the label and no cell to its left does. So a label written twice is
  resolved to its first position.
\<close>

theorem duplicate_headers_leftmost:
  "k < length all_data \<and> is_header_row (all_data ! k) \<and>
   (\<forall>j<k. \<not> is_header_row (all_data ! j)) \<longrightarrow>
     (\<exists>c. scan_columns 0 all_data = Some c \<and>
          leftmost (all_data ! k) ''name'' (name_idx c) \<and>
          leftmost (all_data ! k) ''email'' (email_idx c) \<and>
          (''status'' \<in> set (map normalize (all_data ! k)) \<longrightarrow>
             leftmost (all_data ! k) ''status'' (status_idx c)) \<and>
          (''business name'' \<in> set (map normalize (all_data ! k)) \<longrightarrow>
             leftmost (all_data ! k) ''business name'' (business_idx c)))"
proof
  assume "k < length all_data \<and> is_header_row (all_data ! k) \<and>
    (\<forall>j<k. \<not> is_header_row (all_data ! j))"
  then have k: "k < length all_data" "is_header_row (all_data ! k)"
    "\<forall>j<k. \<not> is_header_row (all_data ! j)" by simp_all
  from scan_columns_first [OF k, of 0] obtain c where
    c: "scan_columns 0 all_data = Some c"
       "leftmost (all_data ! k) ''name'' (name_idx c)"
       "leftmost (all_data ! k) ''email'' (email_idx c)"
       "if ''status'' \<in> set (map normalize (all_data ! k))
        then leftmost (all_data ! k) ''status'' (status_idx c)
        else status_idx c = int (length (all_data ! k))"
       "if ''business name'' \<in> set (map normalize (all_data ! k))
        then leftmost (all_data ! k) ''business name'' (business_idx c)
        else business_idx c = - 1"
    by (elim exE conjE)
  from c(4) have s: "''status'' \<in> set (map normalize (all_data ! k)) \<longrightarrow>
             leftmost (all_data ! k) ''status'' (status_idx c)"
    by (simp split: if_splits)
  from c(5) have b: "''business name'' \<in> set (map normalize (all_data ! k)) \<longrightarrow>
             leftmost (all_data ! k) ''business name'' (business_idx c)"
    by (simp split: if_splits)
  from c(1,2,3) s b
  show "\<exists>c. scan_columns 0 all_data = Some c \<and>
          leftmost (all_data ! k) ''name'' (name_idx c) \<and>
          leftmost (all_data ! k) ''email'' (email_idx c) \<and>
          (''status'' \<in> set (map normalize (all_data ! k)) \<longrightarrow>
             leftmost (all_data ! k) ''status'' (status_idx c)) \<and>
          (''business name'' \<in> set (map normalize (all_data ! k)) \<longrightarrow>
             leftmost (all_data ! k) ''business name'' (business_idx c))"
    by (intro exI conjI)
qed

theorem duplicate_headers_leftmost_witness:
  "\<exists>c. scan_columns 0 [[''Email'', ''Name'', ''Status'', '' name'', ''EMAIL'', ''status'',
                          ''Business Name'', ''business name'']] = Some c \<and>
       name_idx c = 1 \<and> email_idx c = 0 \<and> status_idx c = 2 \<and> business_idx c = 6"
proof -
  let ?H = "[''Email'', ''Name'', ''Status'', '' name'', ''EMAIL'', ''status'',
             ''Business Name'', ''business name'']"
  have h: "is_header_row ?H" by (simp add: is_header_row_def string_ops)
  have s: "''status'' \<in> set (map normalize ?H)" by (simp add: string_ops)
  have b: "''business name'' \<in> set (map normalize ?H)" by (simp add: string_ops)
  have pre: "(0::nat) < length [?H] \<and> is_header_row ([?H] ! 0) \<and>
     (\<forall>j<0. \<not> is_header_row ([?H] ! j))"
    using h by simp
  note inst = mp [OF duplicate_headers_leftmost [where k = 0 and all_data = "[?H]"] pre]
  from inst obtain c where c: "scan_columns 0 [?H] = Some c"
    "leftmost ([?H] ! 0) ''name'' (name_idx c)"
    "leftmost ([?H] ! 0) ''email'' (email_idx c)"
    "''status'' \<in> set (map normalize ([?H] ! 0)) \<longrightarrow> leftmost ([?H] ! 0) ''status'' (status_idx c)"
    "''business name'' \<in> set (map normalize ([?H] ! 0)) \<longrightarrow>
       leftmost ([?H] ! 0) ''business name'' (business_idx c)"
    by (elim exE conjE)
  have l1: "leftmost ?H ''name'' 1" by (simp add: leftmost_def string_ops)
  have l0: "leftmost ?H ''email'' 0" by (simp add: leftmost_def string_ops)
  have l2: "leftmost ?H ''status'' 2" by (simp add: leftmost_def string_ops less_Suc_eq numeral_2_eq_2)
  have l6: "leftmost ?H ''business name'' 6"
    by (simp add: leftmost_def string_ops less_Suc_eq eval_nat_numeral)
  have r: "[?H] ! 0 = ?H" by simp
  have "name_idx c = 1" by (rule leftmost_unique [OF c(2) [unfolded r] l1])
  moreover have "email_idx c = 0" by (rule leftmost_unique [OF c(3) [unfolded r] l0])
  moreover have "status_idx c = 2"
    by (rule leftmost_unique [OF mp [OF c(4) [unfolded r] s] l2])
  moreover have "business_idx c = 6"
    by (rule leftmost_unique [OF mp [OF c(5) [unfolded r] b] l6])
  ultimately show ?thesis using c(1) by (intro exI conjI)
qed

subsection \<open>The record loop\<close>

lemma kept_rows_numbers:
  "map row_number (map (\<lambda>(j, row). contact_of c j row)
      (filter (\<lambda>(j, row). P row) (zip [i..<i + length rows] rows))) =
   map (\<lambda>k. i + k) (filter (\<lambda>k. P (rows ! k)) [0..<length rows])"
proof -
  have "map row_number (map (\<lambda>(j, row). contact_of c j row) ps) = map fst ps" for ps
    by (induction ps) (auto simp: contact_of_def)
  then show ?thesis by (simp only: filter_zip_upt)
qed

lemma kept_rows_length:
  "length (filter (\<lambda>(j, x). P x) (zip [i..<i + length xs] xs)) = length (filter P xs)"
proof (induction xs arbitrary: i)
  case Nil
  show ?case by simp
next
  case (Cons x xs)
  have upt: "[i..<i + length (x # xs)] = i # [Suc i..<Suc i + length xs]"
    by (subst upt_rec) simp
  show ?case unfolding upt using Cons.IH [of "Suc i"] by (simp del: upt_Suc)
qed

lemma kept_rows_member:
  assumes "r \<in> set (map (\<lambda>(j, row). contact_of c j row)
      (filter (\<lambda>(j, row). P row) (zip [i..<i + length rows] rows)))"
  shows "i \<le> row_number r \<and> row_number r < i + length rows \<and>
         P (rows ! (row_number r - i)) \<and>
         r = contact_of c (row_number r) (rows ! (row_number r - i))"
proof -
  from assms obtain j row where
    jr: "(j, row) \<in> set (zip [i..<i + length rows] rows)" "P row" "r = contact_of c j row"
    by auto
  from jr(1) obtain n where n: "n < length rows" "j = [i..<i + length rows] ! n" "row = rows ! n"
    by (auto simp: set_zip)
  from n(1,2) have j: "j = i + n" by simp
  have rn: "row_number r = j" using jr(3) by (simp add: contact_of_def)
  show ?thesis using n(1,3) j jr(2,3) rn by simp
qed

lemma upt_drop_filter:
  assumes "h \<le> length g"
  shows "map (\<lambda>k. Suc h + k) (filter (\<lambda>k. P (drop h g ! k)) [0..<length (drop h g)]) =
         map Suc (filter (\<lambda>j. P (g ! j)) [h..<length g])"
proof -
  have "[h..<length g] = map (\<lambda>k. k + h) [0..<length g - h]"
    using assms by (simp add: map_add_upt)
  then have "map Suc (filter (\<lambda>j. P (g ! j)) [h..<length g]) =
      map (\<lambda>k. Suc (k + h)) (filter (\<lambda>k. P (g ! (k + h))) [0..<length g - h])"
    by (simp only: filter_map map_map o_def)
  also have "filter (\<lambda>k. P (g ! (k + h))) [0..<length g - h] =
      filter (\<lambda>k. P (drop h g ! k)) [0..<length g - h]"
    using assms by (intro filter_cong) (auto simp: add.commute)
  finally show ?thesis by (simp add: add.commute)
qed

lemma scan_columns_first_ranges:
  assumes "k < length g" "is_header_row (g ! k)" "\<forall>j<k. \<not> is_header_row (g ! j)"
  shows "\<exists>c. scan_columns 0 g = Some c \<and> header_row_num c = k + 1 \<and>
             0 \<le> name_idx c \<and> 0 \<le> email_idx c \<and> 0 \<le> status_idx c \<and> - 1 \<le> business_idx c"
proof -
  from scan_columns_first [OF assms, of 0] obtain c where
    c: "scan_columns 0 g = Some c" "header_row_num c = 0 + k + 1"
       "leftmost (g ! k) ''name'' (name_idx c)"
       "leftmost (g ! k) ''email'' (email_idx c)"
       "if ''status'' \<in> set (map normalize (g ! k))
        then leftmost (g ! k) ''status'' (status_idx c)
        else status_idx c = int (length (g ! k))"
       "if ''business name'' \<in> set (map normalize (g ! k))
        then leftmost (g ! k) ''business name'' (business_idx c)
        else business_idx c = - 1"
    by (elim exE conjE)
  have "0 \<le> name_idx c" "0 \<le> email_idx c" using c(3,4) by (simp_all add: leftmost_def)
  moreover have "0 \<le> status_idx c" using c(5) by (simp add: leftmost_def split: if_splits)
  moreover have "- 1 \<le> business_idx c" using c(6) by (simp add: leftmost_def split: if_splits)
  moreover have "header_row_num c = k + 1" using c(2) by simp
  ultimately show ?thesis using c(1) by (intro exI conjI)
qed

subsection \<open>Record inclusion\<close>

text \<open>
  Claim C2. Let \<open>k\<close> be the header row (0-based), so that the rows after it are those at
  positions \<open>k + 1\<close> and up, and let a row qualify when it has more cells than the larger
  of the name and email indices and its email cell is not empty after trimming. The
  record loop returns without an error, and the row numbers of its records are, in
  order, the 1-based numbers of exactly the qualifying rows after the header. Hence there
  are as many records as qualifying rows, every other row is dropped, and the records
  stand in the order of their rows. Each record carries the name and email cells of its
  row.
\<close>

theorem record_inclusion:
  "k < length all_data \<and> is_header_row (all_data ! k) \<and>
   (\<forall>j<k. \<not> is_header_row (all_data ! j)) \<longrightarrow>
     (\<exists>c rs. scan_columns 0 all_data = Some c \<and>
        prepare_records c (header_row_num c + 1) (drop (header_row_num c) all_data) = Some rs \<and>
        map row_number rs =
          map Suc (filter (\<lambda>j. qualifies c (all_data ! j)) [k + 1..<length all_data]) \<and>
        length rs = length (filter (qualifies c) (drop (k + 1) all_data)) \<and>
        (\<forall>r \<in> set rs.
           Name r = all_data ! (row_number r - 1) ! nat (name_idx c) \<and>
           Email r = all_data ! (row_number r - 1) ! nat (email_idx c)))"
proof
  assume "k < length all_data \<and> is_header_row (all_data ! k) \<and>
    (\<forall>j<k. \<not> is_header_row (all_data ! j))"
  then have k: "k < length all_data" "is_header_row (all_data ! k)"
    "\<forall>j<k. \<not> is_header_row (all_data ! j)" by simp_all
  from scan_columns_first_ranges [OF k] obtain c where
    c: "scan_columns 0 all_data = Some c" "header_row_num c = k + 1"
    and r: "0 \<le> name_idx c" "0 \<le> email_idx c" "0 \<le> status_idx c" "- 1 \<le> business_idx c"
    by (elim exE conjE)
  let ?h = "k + 1"
  let ?rows = "drop ?h all_data"
  let ?rs = "map (\<lambda>(j, row). contact_of c j row)
      (filter (\<lambda>(j, row). qualifies c row) (zip [?h + 1..<?h + 1 + length ?rows] ?rows))"
  have h: "?h \<le> length all_data" using k(1) by simp
  have prep: "prepare_records c (header_row_num c + 1) (drop (header_row_num c) all_data) = Some ?rs"
    unfolding c(2) by (rule prepare_records_total [OF r])
  have nums: "map row_number ?rs =
      map Suc (filter (\<lambda>j. qualifies c (all_data ! j)) [?h..<length all_data])"
    using upt_drop_filter [OF h, of "qualifies c"]
    by (simp only: kept_rows_numbers) simp
  have len: "length ?rs = length (filter (qualifies c) ?rows)"
    by (simp only: length_map kept_rows_length)
  have cells: "\<forall>r \<in> set ?rs.
      Name r = all_data ! (row_number r - 1) ! nat (name_idx c) \<and>
      Email r = all_data ! (row_number r - 1) ! nat (email_idx c)"
  proof
    fix r assume "r \<in> set ?rs"
    from kept_rows_member [OF this] have
      m: "?h + 1 \<le> row_number r" "row_number r < ?h + 1 + length ?rows"
         "r = contact_of c (row_number r) (?rows ! (row_number r - (?h + 1)))"
      by simp_all
    have "?h + (row_number r - (?h + 1)) = row_number r - 1"
      using m(1) by arith
    then have "?rows ! (row_number r - (?h + 1)) = all_data ! (row_number r - 1)"
      using h by (simp only: nth_drop)
    with m(3) have "r = contact_of c (row_number r) (all_data ! (row_number r - 1))" by simp
    then have "Name r = Name (contact_of c (row_number r) (all_data ! (row_number r - 1)))"
      "Email r = Email (contact_of c (row_number r) (all_data ! (row_number r - 1)))"
      by simp_all
    then show "Name r = all_data ! (row_number r - 1) ! nat (name_idx c) \<and>
      Email r = all_data ! (row_number r - 1) ! nat (email_idx c)"
      by (simp add: contact_of_def)
  qed
  from c(1) prep nums len cells
  show "\<exists>c rs. scan_columns 0 all_data = Some c \<and>
        prepare_records c (header_row_num c + 1) (drop (header_row_num c) all_data) = Some rs \<and>
        map row_number rs =
          map Suc (filter (\<lambda>j. qualifies c (all_data ! j)) [k + 1..<length all_data]) \<and>
        length rs = length (filter (qualifies c) (drop (k + 1) all_data)) \<and>
        (\<forall>r \<in> set rs.
           Name r = all_data ! (row_number r - 1) ! nat (name_idx c) \<and>
           Email r = all_data ! (row_number r - 1) ! nat (email_idx c))"
    by (intro exI conjI)
qed

theorem record_inclusion_witness:
  "\<exists>c rs. scan_columns 0 [[''Name'', ''Email'', ''Status''], [''Bob'', ''bob@x.com'', ''''],
              [''Cara'', ''  '', ''''], [''short''], [''Amy'', ''amy@x.com'', ''sent'']] = Some c \<and>
     prepare_records c (header_row_num c + 1) (drop (header_row_num c)
          [[''Name'', ''Email'', ''Status''], [''Bob'', ''bob@x.com'', ''''],
           [''Cara'', ''  '', ''''], [''short''], [''Amy'', ''amy@x.com'', ''sent'']]) = Some rs \<and>
     map row_number rs = [2, 5] \<and> length rs = 2"
proof -
  let ?G = "[[''Name'', ''Email'', ''Status''], [''Bob'', ''bob@x.com'', ''''],
             [''Cara'', ''  '', ''''], [''short''], [''Amy'', ''amy@x.com'', ''sent'']]"
  have pre: "(0::nat) < length ?G \<and> is_header_row (?G ! 0) \<and>
     (\<forall>j<0. \<not> is_header_row (?G ! j))"
    by (simp add: is_header_row_def string_ops)
  note inst = mp [OF record_inclusion [where k = 0 and all_data = ?G] pre]
  from inst obtain c rs where f: "scan_columns 0 ?G = Some c"
    "prepare_records c (header_row_num c + 1) (drop (header_row_num c) ?G) = Some rs"
    "map row_number rs = map Suc (filter (\<lambda>j. qualifies c (?G ! j)) [0 + 1..<length ?G])"
    by (elim exE conjE)
  have cv: "c = \<lparr>name_idx = 0, email_idx = 1, status_idx = 2, business_idx = - 1,
      header_row_num = 1\<rparr>"
    using f(1) by (simp add: string_ops)
  have idx: "[0 + 1..<length ?G] = [1, 2, 3, 4]"
    by (simp add: upt_rec)
  have nums: "map row_number rs = [2, 5]"
    unfolding f(3) idx cv by (simp add: qualifies_def strip_def isspace_def whitespace_def)
  then have "length (map row_number rs) = 2" by simp
  then have "length rs = 2" by simp
  with f(1,2) nums show ?thesis by (intro exI conjI)
qed

subsection \<open>Empty result\<close>

text \<open>
  Claim C8. When the scan has found the header and the record loop returns no record, the
  run stops with the outcome \<open>NoContacts\<close>: the state only gains the warning that no
  contacts were found, so there is no SMTP login, no send and no write. The outcome and
  the message differ from those of the missing-columns stop, and the outcome is not a
  crash.
\<close>

theorem empty_result_halt:
  "scan_columns 0 all_data = Some c \<and> name_idx c \<noteq> - 1 \<and> email_idx c \<noteq> - 1 \<and>
   prepare_records c (header_row_num c + 1) (drop (header_row_num c) all_data) = Some [] \<longrightarrow>
     send_emails cfg env all_data st = (NoContacts, emit (Ui WarnNoContacts) st) \<and>
     trace (snd (send_emails cfg env all_data st)) = trace st @ [Ui WarnNoContacts] \<and>
     sheet (snd (send_emails cfg env all_data st)) = sheet st \<and>
     NoContacts \<noteq> MissingColumns \<and> NoContacts \<noteq> Crashed e \<and>
     Ui WarnNoContacts \<noteq> Ui ErrMissingColumns"
  by (simp add: send_emails_def emit_def)

theorem empty_result_halt_witness:
  "send_emails demo_cfg demo_env [[''Name'', ''Email''], [''Cara'', ''  '']] demo_state =
     (NoContacts, \<lparr>sheet = Map.empty, trace = [Ui WarnNoContacts]\<rparr>)"
proof -
  let ?G = "[[''Name'', ''Email''], [''Cara'', ''  '']]"
  let ?c = "\<lparr>name_idx = 0, email_idx = 1, status_idx = 2, business_idx = - 1,
      header_row_num = 1\<rparr>"
  have pre: "scan_columns 0 ?G = Some ?c \<and> name_idx ?c \<noteq> - 1 \<and> email_idx ?c \<noteq> - 1 \<and>
     prepare_records ?c (header_row_num ?c + 1) (drop (header_row_num ?c) ?G) = Some []"
    by (simp add: string_ops py_nth_def)
  note t = mp [OF empty_result_halt [where all_data = ?G and c = ?c and cfg = demo_cfg
      and env = demo_env and st = demo_state and e = ValueError] pre]
  from conjunct1 [OF t] show ?thesis by (simp add: emit_def demo_state_def)
qed

subsection \<open>The send loop\<close>

lemma record_events_eq:
  "record_events cfg env sidx idx r =
     (if already_sent r then [Ui (Skipping (strip (Name r)))]
      else if \<not> message_ok cfg env r then [Ui (Sending (strip (Name r)))]
      else [Ui (Sending (strip (Name r))), SendMessage (build_message cfg r)] @
        (if send_ok env idx \<and> write_ok env idx ''Sent''
         then [UpdateCell (row_number r) (sidx + 1) ''Sent'',
               Ui (SentTo (strip (Name r)) (strip (Email r))), Sleep]
         else (if send_ok env idx then [UpdateRaised (row_number r) (sidx + 1) ''Sent''] else []) @
              (if write_ok env idx ''Failed''
               then [UpdateCell (row_number r) (sidx + 1) ''Failed'',
                     Ui (FailedTo (strip (Name r))), Sleep]
               else [UpdateRaised (row_number r) (sidx + 1) ''Failed''])))"
  by (simp add: record_events_def process_record_def Let_def emit_def update_cell_def)

lemma pass_error_eq:
  "pass_error cfg env idx r =
     (if already_sent r then None
      else if \<not> message_ok cfg env r then Some HeaderError
      else if send_ok env idx \<and> write_ok env idx ''Sent'' then None
      else if write_ok env idx ''Failed'' then None else Some SheetError)"
  by (simp add: pass_error_def process_record_def Let_def)

lemma pass_error_returns: "(pass_error cfg env idx r = None) = pass_returns cfg env idx r"
  by (simp add: pass_error_eq pass_returns_def)

lemma sheet_after_append: "sheet_after (xs @ ys) s = sheet_after ys (sheet_after xs s)"
proof (induction xs arbitrary: s)
  case Nil
  show ?case by simp
next
  case (Cons e es)
  show ?case by (cases e) (simp_all add: Cons.IH fun_upd_def)
qed

lemma process_record_eq:
  "process_record cfg env sidx idx r st =
     (pass_error cfg env idx r,
      st\<lparr>sheet := sheet_after (record_events cfg env sidx idx r) (sheet st),
         trace := trace st @ record_events cfg env sidx idx r\<rparr>)"
  by (simp add: record_events_def pass_error_def process_record_def Let_def emit_def
      update_cell_def)

lemma send_loop_eq:
  "send_loop cfg env sidx idx rs st =
     (loop_error cfg env idx rs,
      st\<lparr>sheet := sheet_after (loop_events cfg env sidx idx rs) (sheet st),
         trace := trace st @ loop_events cfg env sidx idx rs\<rparr>)"
proof (induction rs arbitrary: idx st)
  case Nil
  show ?case by simp
next
  case (Cons r rs)
  show ?case
    by (cases "pass_error cfg env idx r")
       (simp_all add: process_record_eq Cons.IH sheet_after_append)
qed

text \<open>The loop runs the passes of the first \<open>n\<close> records, all of them when it does not raise.\<close>

lemma loop_events_passes:
  "\<exists>n \<le> length rs.
     loop_events cfg env sidx idx rs =
       concat (map (\<lambda>i. record_events cfg env sidx (idx + i) (rs ! i)) [0..<n]) \<and>
     (\<forall>i<n. i + 1 < n \<longrightarrow> pass_error cfg env (idx + i) (rs ! i) = None) \<and>
     (loop_error cfg env idx rs = None \<longrightarrow> n = length rs) \<and>
     (loop_error cfg env idx rs \<noteq> None \<longrightarrow>
        0 < n \<and> pass_error cfg env (idx + (n - 1)) (rs ! (n - 1)) = loop_error cfg env idx rs) \<and>
     (rs \<noteq> [] \<longrightarrow> 0 < n)"
proof (induction rs arbitrary: idx)
  case Nil
  show ?case by simp
next
  case (Cons r rs)
  have shift: "map (\<lambda>i. record_events cfg env sidx (idx + i) ((r # rs) ! i)) [0..<Suc m] =
      record_events cfg env sidx idx r #
      map (\<lambda>i. record_events cfg env sidx (Suc idx + i) (rs ! i)) [0..<m]" for m
    by (simp add: upt_conv_Cons map_Suc_upt [symmetric] del: upt_Suc)
  show ?case
  proof (cases "pass_error cfg env idx r")
    case (Some e)
    show ?thesis
      by (rule exI [of _ 1]) (simp add: Some)
  next
    case None
    from Cons.IH [of "Suc idx"] obtain n where n: "n \<le> length rs"
      "loop_events cfg env sidx (Suc idx) rs =
         concat (map (\<lambda>i. record_events cfg env sidx (Suc idx + i) (rs ! i)) [0..<n])"
      "\<forall>i<n. i + 1 < n \<longrightarrow> pass_error cfg env (Suc idx + i) (rs ! i) = None"
      "loop_error cfg env (Suc idx) rs = None \<longrightarrow> n = length rs"
      "loop_error cfg env (Suc idx) rs \<noteq> None \<longrightarrow>
        0 < n \<and> pass_error cfg env (Suc idx + (n - 1)) (rs ! (n - 1)) = loop_error cfg env (Suc idx) rs"
      by (elim exE conjE)
    have earlier: "\<forall>i<Suc n. i + 1 < Suc n \<longrightarrow> pass_error cfg env (idx + i) ((r # rs) ! i) = None"
    proof (intro allI impI)
      fix i assume "i < Suc n" "i + 1 < Suc n"
      then show "pass_error cfg env (idx + i) ((r # rs) ! i) = None"
        using n(3) None by (cases i) simp_all
    qed
    have last: "loop_error cfg env idx (r # rs) \<noteq> None \<longrightarrow>
        0 < Suc n \<and> pass_error cfg env (idx + (Suc n - 1)) ((r # rs) ! (Suc n - 1)) =
          loop_error cfg env idx (r # rs)"
      using n(5) None by (cases n) auto
    show ?thesis
      apply (rule exI [of _ "Suc n"])
      apply (intro conjI)
      subgoal using n(1) by simp
      subgoal unfolding shift using n(2) None by simp
      subgoal by (rule earlier)
      subgoal using n(4) None by simp
      subgoal by (rule last)
      subgoal by simp
      done
  qed
qed

subsection \<open>The records of a grid\<close>

lemma prepare_records_after:
  assumes "0 \<le> name_idx c" "0 \<le> email_idx c" "0 \<le> status_idx c" "- 1 \<le> business_idx c"
  shows "prepare_records c (h + 1) (drop h g) = Some (records_after c h g)"
  unfolding records_after_def by (rule prepare_records_total [OF assms])

lemma records_after_member:
  assumes "r \<in> set (records_after c h g)" "h \<le> length g"
  shows "h + 1 \<le> row_number r \<and> row_number r \<le> length g \<and>
         qualifies c (g ! (row_number r - 1)) \<and>
         r = contact_of c (row_number r) (g ! (row_number r - 1))"
proof -
  from kept_rows_member [OF assms(1) [unfolded records_after_def]] have
    m: "h + 1 \<le> row_number r" "row_number r < h + 1 + length (drop h g)"
       "qualifies c (drop h g ! (row_number r - (h + 1)))"
       "r = contact_of c (row_number r) (drop h g ! (row_number r - (h + 1)))"
    by simp_all
  have "h + (row_number r - (h + 1)) = row_number r - 1"
    using m(1) by arith
  then have "drop h g ! (row_number r - (h + 1)) = g ! (row_number r - 1)"
    using assms(2) by (simp only: nth_drop)
  with m(3,4) have "qualifies c (g ! (row_number r - 1))"
    "r = contact_of c (row_number r) (g ! (row_number r - 1))"
    by simp_all
  moreover have "row_number r \<le> length g" using m(2) assms(2) by simp
  ultimately show ?thesis using m(1) by simp
qed

lemma records_after_has:
  assumes "h \<le> j" "j < length g" "qualifies c (g ! j)"
  shows "contact_of c (j + 1) (g ! j) \<in> set (records_after c h g)"
proof -
  let ?rows = "drop h g"
  let ?n = "j - h"
  have n: "?n < length ?rows" using assms(1,2) by simp
  have row: "?rows ! ?n = g ! j" using assms(1,2) by simp
  have e: "[h + 1..<h + 1 + length ?rows] ! ?n = h + 1 + ?n"
    using n by (intro nth_upt) simp
  have "(h + 1 + ?n, ?rows ! ?n) \<in> set (zip [h + 1..<h + 1 + length ?rows] ?rows)"
    unfolding in_set_zip using n e by (intro exI [of _ ?n]) (simp del: upt_Suc)
  moreover have "h + 1 + ?n = j + 1" using assms(1) by simp
  ultimately have "(j + 1, g ! j) \<in> set (zip [h + 1..<h + 1 + length ?rows] ?rows)"
    using row by simp
  with assms(3) have "(j + 1, g ! j) \<in>
      set (filter (\<lambda>(j, row). qualifies c row) (zip [h + 1..<h + 1 + length ?rows] ?rows))"
    by simp
  then have "(\<lambda>(j, row). contact_of c j row) (j + 1, g ! j) \<in> set (records_after c h g)"
    unfolding records_after_def set_map by (rule imageI)
  then show ?thesis by simp
qed

lemma records_after_distinct: "distinct (map row_number (records_after c h g))"
proof -
  have "map row_number (records_after c h g) =
      map (\<lambda>k. h + 1 + k) (filter (\<lambda>k. qualifies c (drop h g ! k)) [0..<length (drop h g)])"
    unfolding records_after_def by (rule kept_rows_numbers)
  moreover have "distinct (map (\<lambda>k. h + 1 + k)
      (filter (\<lambda>k. qualifies c (drop h g ! k)) [0..<length (drop h g)]))"
    by (simp add: distinct_map inj_on_def)
  ultimately show ?thesis by simp
qed

lemma status_blank_not_sent: "Status r = [] \<Longrightarrow> \<not> already_sent r"
  by (simp add: already_sent_def lower_def strip_def)

lemma scan_columns_found:
  assumes "scan_columns i g = Some c" "name_idx c \<noteq> - 1"
  shows "\<exists>k<length g. is_header_row (g ! k) \<and> (\<forall>j<k. \<not> is_header_row (g ! j)) \<and>
           header_row_num c = i + k + 1 \<and>
           leftmost (g ! k) ''name'' (name_idx c) \<and> leftmost (g ! k) ''email'' (email_idx c) \<and>
           (if ''status'' \<in> set (map normalize (g ! k))
            then leftmost (g ! k) ''status'' (status_idx c)
            else status_idx c = int (length (g ! k))) \<and>
           (if ''business name'' \<in> set (map normalize (g ! k))
            then leftmost (g ! k) ''business name'' (business_idx c)
            else business_idx c = - 1)"
proof -
  have "\<exists>k. k < length g \<and> is_header_row (g ! k)"
  proof (rule ccontr)
    assume "\<not> (\<exists>k. k < length g \<and> is_header_row (g ! k))"
    then have "\<forall>row \<in> set g. \<not> is_header_row row" by (auto simp: in_set_conv_nth)
    from scan_columns_no_header [OF this, of i] assms show False by (simp add: no_columns_def)
  qed
  then obtain k0 where k0: "k0 < length g \<and> is_header_row (g ! k0)" by blast
  define k where "k = (LEAST k. k < length g \<and> is_header_row (g ! k))"
  have k: "k < length g \<and> is_header_row (g ! k)"
    unfolding k_def using k0 by (rule LeastI)
  have first: "\<forall>j<k. \<not> is_header_row (g ! j)"
  proof (intro allI impI)
    fix j assume "j < k"
    then have "\<not> (j < length g \<and> is_header_row (g ! j))"
      unfolding k_def by (rule not_less_Least)
    moreover from \<open>j < k\<close> k have "j < length g" by simp
    ultimately show "\<not> is_header_row (g ! j)" by simp
  qed
  from scan_columns_first [of k g i] k first assms(1)
  show ?thesis by (intro exI [of _ k]) auto
qed

lemma scan_columns_ranges:
  assumes "scan_columns i g = Some c" "name_idx c \<noteq> - 1"
  shows "0 \<le> name_idx c \<and> 0 \<le> email_idx c \<and> 0 \<le> status_idx c \<and> - 1 \<le> business_idx c \<and>
         i < header_row_num c \<and> header_row_num c \<le> i + length g"
proof -
  from scan_columns_found [OF assms] obtain k where k: "k < length g"
    "header_row_num c = i + k + 1"
    "leftmost (g ! k) ''name'' (name_idx c)" "leftmost (g ! k) ''email'' (email_idx c)"
    "if ''status'' \<in> set (map normalize (g ! k))
     then leftmost (g ! k) ''status'' (status_idx c)
     else status_idx c = int (length (g ! k))"
    "if ''business name'' \<in> set (map normalize (g ! k))
     then leftmost (g ! k) ''business name'' (business_idx c)
     else business_idx c = - 1"
    by (elim exE conjE)
  have "0 \<le> name_idx c" "0 \<le> email_idx c" using k(3,4) by (simp_all add: leftmost_def)
  moreover have "0 \<le> status_idx c" using k(5) by (simp add: leftmost_def split: if_splits)
  moreover have "- 1 \<le> business_idx c" using k(6) by (simp add: leftmost_def split: if_splits)
  ultimately show ?thesis using k(1,2) by simp
qed

lemma found_records:
  assumes "scan_columns 0 g = Some c" "name_idx c \<noteq> - 1"
    "prepare_records c (header_row_num c + 1) (drop (header_row_num c) g) = Some rs"
  shows "rs = records_after c (header_row_num c) g \<and> header_row_num c \<le> length g"
proof -
  from scan_columns_ranges [OF assms(1,2)] have
    r: "0 \<le> name_idx c" "0 \<le> email_idx c" "0 \<le> status_idx c" "- 1 \<le> business_idx c"
    and h: "header_row_num c \<le> length g" by simp_all
  from prepare_records_after [OF r, of "header_row_num c" g] assms(3)
  show ?thesis using h by simp
qed

lemma send_emails_run:
  assumes "scan_columns 0 g = Some c" "name_idx c \<noteq> - 1" "email_idx c \<noteq> - 1"
    "prepare_records c (header_row_num c + 1) (drop (header_row_num c) g) = Some rs"
    "rs \<noteq> []" "login_ok env"
  shows "send_emails cfg env g st =
    ((case loop_error cfg env 0 rs of None \<Rightarrow> Completed | Some e \<Rightarrow> Crashed e),
     st\<lparr>sheet := sheet_after (loop_events cfg env (status_idx c) 0 rs) (sheet st),
        trace := trace st @
          [Ui (FoundContacts (length rs)), Ui (LoggingIn (LOGIN_EMAIL cfg)), SmtpConnect] @
          loop_events cfg env (status_idx c) 0 rs @
          (case loop_error cfg env 0 rs of None \<Rightarrow> [SmtpQuit, Ui AllFinished] | Some e \<Rightarrow> [])\<rparr>)"
  using assms
  by (cases "loop_error cfg env 0 rs")
     (simp_all add: send_emails_def Let_def send_loop_eq emit_def)

lemma sheet_after_untouched:
  assumes "\<forall>v. UpdateCell r col v \<notin> set es"
  shows "sheet_after es s (r, col) = s (r, col)"
  using assms
proof (induction es arbitrary: s)
  case Nil
  show ?case by simp
next
  case (Cons e es)
  then show ?case by (cases e) (auto simp: fun_upd_def)
qed

lemma record_events_write:
  assumes "UpdateCell ro col v \<in> set (record_events cfg env sidx idx r)"
  shows "ro = row_number r \<and> col = sidx + 1 \<and>
         (\<exists>rest. record_events cfg env sidx idx r =
            [Ui (Sending (strip (Name r))), SendMessage (build_message cfg r)] @ rest)"
  using assms by (auto simp: record_events_eq split: if_splits)


subsection \<open>The run over the records\<close>

lemma loop_error_none:
  "(loop_error cfg env idx rs = None) =
     (\<forall>i<length rs. pass_error cfg env (idx + i) (rs ! i) = None)"
proof (induction rs arbitrary: idx)
  case Nil
  show ?case by simp
next
  case (Cons r rs)
  show ?case
    by (cases "pass_error cfg env idx r")
       (auto simp: Cons.IH less_Suc_eq_0_disj)
qed

lemma run_passes:
  assumes "scan_columns 0 g = Some c" "name_idx c \<noteq> - 1" "email_idx c \<noteq> - 1"
    "prepare_records c (header_row_num c + 1) (drop (header_row_num c) g) = Some rs"
    "rs \<noteq> []" "login_ok env"
  shows "\<exists>n. 0 < n \<and> n \<le> length rs \<and>
    send_emails cfg env g st =
      ((case loop_error cfg env 0 rs of None \<Rightarrow> Completed | Some e \<Rightarrow> Crashed e),
       st\<lparr>sheet := sheet_after
              (concat (map (\<lambda>i. record_events cfg env (status_idx c) i (rs ! i)) [0..<n]))
              (sheet st),
          trace := trace st @
            [Ui (FoundContacts (length rs)), Ui (LoggingIn (LOGIN_EMAIL cfg)), SmtpConnect] @
            concat (map (\<lambda>i. record_events cfg env (status_idx c) i (rs ! i)) [0..<n]) @
            (case loop_error cfg env 0 rs of None \<Rightarrow> [SmtpQuit, Ui AllFinished]
             | Some e \<Rightarrow> [])\<rparr>) \<and>
    (\<forall>i<n. i + 1 < n \<longrightarrow> pass_error cfg env i (rs ! i) = None) \<and>
    (loop_error cfg env 0 rs = None \<longrightarrow>
       n = length rs \<and> (\<forall>i<length rs. pass_error cfg env i (rs ! i) = None)) \<and>
    (loop_error cfg env 0 rs \<noteq> None \<longrightarrow>
       pass_error cfg env (n - 1) (rs ! (n - 1)) = loop_error cfg env 0 rs)"
proof -
  from loop_events_passes [of rs cfg env "status_idx c" 0] obtain n where n: "n \<le> length rs"
    "loop_events cfg env (status_idx c) 0 rs =
       concat (map (\<lambda>i. record_events cfg env (status_idx c) (0 + i) (rs ! i)) [0..<n])"
    "\<forall>i<n. i + 1 < n \<longrightarrow> pass_error cfg env (0 + i) (rs ! i) = None"
    "loop_error cfg env 0 rs = None \<longrightarrow> n = length rs"
    "loop_error cfg env 0 rs \<noteq> None \<longrightarrow>
        0 < n \<and> pass_error cfg env (0 + (n - 1)) (rs ! (n - 1)) = loop_error cfg env 0 rs"
    "rs \<noteq> [] \<longrightarrow> 0 < n"
    by (elim exE conjE)
  have ev: "loop_events cfg env (status_idx c) 0 rs =
       concat (map (\<lambda>i. record_events cfg env (status_idx c) i (rs ! i)) [0..<n])"
    using n(2) by simp
  have pos: "0 < n" using n(6) assms(5) by simp
  have all: "loop_error cfg env 0 rs = None \<longrightarrow>
      n = length rs \<and> (\<forall>i<length rs. pass_error cfg env i (rs ! i) = None)"
    using n(4) loop_error_none [of cfg env 0 rs] by simp
  show ?thesis
    apply (rule exI [of _ n])
    apply (intro conjI)
    subgoal by (rule pos)
    subgoal by (rule n(1))
    subgoal unfolding ev [symmetric] by (rule send_emails_run [OF assms])
    subgoal using n(3) by simp
    subgoal by (rule all)
    subgoal using n(5) by simp
    done
qed

lemma record_events_skipped:
  "already_sent r \<Longrightarrow> record_events cfg env sidx idx r = [Ui (Skipping (strip (Name r)))]"
  by (simp add: record_events_eq)

lemma record_events_refused:
  "\<not> already_sent r \<Longrightarrow> \<not> message_ok cfg env r \<Longrightarrow>
   record_events cfg env sidx idx r = [Ui (Sending (strip (Name r)))]"
  by (simp add: record_events_eq)

lemma record_events_attempt:
  assumes "\<not> already_sent r" "message_ok cfg env r"
  shows "filter (\<lambda>e. is_send e \<or> is_sleep e) (record_events cfg env sidx idx r) =
           SendMessage (build_message cfg r) # (if pass_returns cfg env idx r then [Sleep] else []) \<and>
         take 2 (record_events cfg env sidx idx r) =
           [Ui (Sending (strip (Name r))), SendMessage (build_message cfg r)] \<and>
         (pass_returns cfg env idx r \<longrightarrow> last (record_events cfg env sidx idx r) = Sleep)"
  using assms by (simp add: record_events_eq pass_returns_def)

lemma demo_scan: "scan_columns 0 demo_grid = Some demo_columns"
  by (simp add: demo_grid_def demo_columns_def string_ops)

lemma demo_prepare:
  "prepare_records demo_columns (header_row_num demo_columns + 1)
     (drop (header_row_num demo_columns) demo_grid) = Some demo_records"
  by (simp add: demo_grid_def demo_columns_def demo_records_def py_nth_def strip_def
      isspace_def whitespace_def numeral_2_eq_2)

lemma demo_sent:
  "\<not> already_sent (demo_records ! 0) \<and> already_sent (demo_records ! 1) \<and>
   \<not> already_sent (demo_records ! 2)"
  by (simp add: demo_records_def already_sent_def string_ops)

subsection \<open>Skip or attempt\<close>

text \<open>
  Claim C3, as the code has it. Let the run find the header, keep the records \<open>rs\<close> and
  log in. The loop then runs the passes of the first \<open>n\<close> records in order, and the trace
  of the run is the three events before the loop, the events of these passes and, when the
  run completes, the two events after the loop. For each of these records: when its
  status, trimmed and lowercased, is \<open>sent\<close>, its pass is the one message that it is
  skipped: no send attempt, no status write, no sleep. When its status is anything else
  and its pass returns (the email library accepts the headers, and the status write after
  the send returns), its pass holds exactly one send attempt, of the message built from the
  record, and one sleep, which ends the pass. A pass that does not return is the last one:
  the run ends there with the error, after no send attempt when a header was refused and
  after one send attempt without a sleep when the status write raised. When every pass
  returns, the loop runs all the records and the run completes.
\<close>

theorem skip_versus_attempt:
  "scan_columns 0 all_data = Some c \<and> name_idx c \<noteq> - 1 \<and> email_idx c \<noteq> - 1 \<and>
   prepare_records c (header_row_num c + 1) (drop (header_row_num c) all_data) = Some rs \<and>
   rs \<noteq> [] \<and> login_ok env \<longrightarrow>
   (\<exists>n. 0 < n \<and> n \<le> length rs \<and>
      trace (snd (send_emails cfg env all_data st)) =
        trace st @
        [Ui (FoundContacts (length rs)), Ui (LoggingIn (LOGIN_EMAIL cfg)), SmtpConnect] @
        concat (map (\<lambda>i. record_events cfg env (status_idx c) i (rs ! i)) [0..<n]) @
        (if fst (send_emails cfg env all_data st) = Completed
         then [SmtpQuit, Ui AllFinished] else []) \<and>
      (\<forall>i<n.
         (already_sent (rs ! i) \<longrightarrow>
            record_events cfg env (status_idx c) i (rs ! i) =
              [Ui (Skipping (strip (Name (rs ! i))))]) \<and>
         (\<not> already_sent (rs ! i) \<and> pass_returns cfg env i (rs ! i) \<longrightarrow>
            filter (\<lambda>e. is_send e \<or> is_sleep e)
                (record_events cfg env (status_idx c) i (rs ! i)) =
              [SendMessage (build_message cfg (rs ! i)), Sleep] \<and>
            last (record_events cfg env (status_idx c) i (rs ! i)) = Sleep) \<and>
         (\<not> pass_returns cfg env i (rs ! i) \<longrightarrow>
            Suc i = n \<and>
            fst (send_emails cfg env all_data st) =
              Crashed (if message_ok cfg env (rs ! i) then SheetError else HeaderError) \<and>
            filter (\<lambda>e. is_send e \<or> is_sleep e)
                (record_events cfg env (status_idx c) i (rs ! i)) =
              (if message_ok cfg env (rs ! i)
               then [SendMessage (build_message cfg (rs ! i))] else []))) \<and>
      ((\<forall>i<length rs. pass_returns cfg env i (rs ! i)) \<longrightarrow>
         n = length rs \<and> fst (send_emails cfg env all_data st) = Completed))"
proof
  assume "scan_columns 0 all_data = Some c \<and> name_idx c \<noteq> - 1 \<and> email_idx c \<noteq> - 1 \<and>
   prepare_records c (header_row_num c + 1) (drop (header_row_num c) all_data) = Some rs \<and>
   rs \<noteq> [] \<and> login_ok env"
  then have h: "scan_columns 0 all_data = Some c" "name_idx c \<noteq> - 1" "email_idx c \<noteq> - 1"
    "prepare_records c (header_row_num c + 1) (drop (header_row_num c) all_data) = Some rs"
    "rs \<noteq> []" "login_ok env" by simp_all
  let ?E = "\<lambda>i. record_events cfg env (status_idx c) i (rs ! i)"
  let ?L = "loop_error cfg env 0 rs"
  from run_passes [OF h, of cfg st] obtain n where n: "0 < n" "n \<le> length rs"
    and run: "send_emails cfg env all_data st =
      ((case ?L of None \<Rightarrow> Completed | Some e \<Rightarrow> Crashed e),
       st\<lparr>sheet := sheet_after (concat (map ?E [0..<n])) (sheet st),
          trace := trace st @
            [Ui (FoundContacts (length rs)), Ui (LoggingIn (LOGIN_EMAIL cfg)), SmtpConnect] @
            concat (map ?E [0..<n]) @
            (case ?L of None \<Rightarrow> [SmtpQuit, Ui AllFinished] | Some e \<Rightarrow> [])\<rparr>)"
    and early: "\<forall>i<n. i + 1 < n \<longrightarrow> pass_error cfg env i (rs ! i) = None"
    and none: "?L = None \<longrightarrow> n = length rs \<and> (\<forall>i<length rs. pass_error cfg env i (rs ! i) = None)"
    and some: "?L \<noteq> None \<longrightarrow> pass_error cfg env (n - 1) (rs ! (n - 1)) = ?L"
    by (elim exE conjE)
  have out: "fst (send_emails cfg env all_data st) =
      (case ?L of None \<Rightarrow> Completed | Some e \<Rightarrow> Crashed e)"
    unfolding run by simp
  have tr: "trace (snd (send_emails cfg env all_data st)) =
        trace st @
        [Ui (FoundContacts (length rs)), Ui (LoggingIn (LOGIN_EMAIL cfg)), SmtpConnect] @
        concat (map ?E [0..<n]) @
        (if fst (send_emails cfg env all_data st) = Completed
         then [SmtpQuit, Ui AllFinished] else [])"
    unfolding out unfolding run by (cases ?L) simp_all
  have raised: "Suc i = n \<and>
      fst (send_emails cfg env all_data st) =
        Crashed (if message_ok cfg env (rs ! i) then SheetError else HeaderError) \<and>
      filter (\<lambda>e. is_send e \<or> is_sleep e) (?E i) =
        (if message_ok cfg env (rs ! i) then [SendMessage (build_message cfg (rs ! i))] else [])"
    if i: "i < n" and nr: "\<not> pass_returns cfg env i (rs ! i)" for i
  proof -
    from nr have pe: "pass_error cfg env i (rs ! i) \<noteq> None"
      by (simp add: pass_error_returns)
    with early i have last: "Suc i = n" by (cases "i + 1 < n") auto
    from pe i n(2) none have "?L \<noteq> None" by auto
    with some last have l: "?L = pass_error cfg env i (rs ! i)" by auto
    from nr have ns: "\<not> already_sent (rs ! i)" by (auto simp: pass_returns_def)
    from nr ns have e: "pass_error cfg env i (rs ! i) =
        Some (if message_ok cfg env (rs ! i) then SheetError else HeaderError)"
      by (auto simp: pass_error_eq pass_returns_def)
    have f: "filter (\<lambda>e. is_send e \<or> is_sleep e) (?E i) =
        (if message_ok cfg env (rs ! i) then [SendMessage (build_message cfg (rs ! i))] else [])"
    proof (cases "message_ok cfg env (rs ! i)")
      case True
      from record_events_attempt [OF ns True, of "status_idx c" i] nr True
      show ?thesis by simp
    next
      case False
      from record_events_refused [OF ns False, of "status_idx c" i] False
      show ?thesis by simp
    qed
    from last f show ?thesis unfolding out l e by simp
  qed
  have per: "\<forall>i<n.
         (already_sent (rs ! i) \<longrightarrow> ?E i = [Ui (Skipping (strip (Name (rs ! i))))]) \<and>
         (\<not> already_sent (rs ! i) \<and> pass_returns cfg env i (rs ! i) \<longrightarrow>
            filter (\<lambda>e. is_send e \<or> is_sleep e) (?E i) =
              [SendMessage (build_message cfg (rs ! i)), Sleep] \<and>
            last (?E i) = Sleep) \<and>
         (\<not> pass_returns cfg env i (rs ! i) \<longrightarrow>
            Suc i = n \<and>
            fst (send_emails cfg env all_data st) =
              Crashed (if message_ok cfg env (rs ! i) then SheetError else HeaderError) \<and>
            filter (\<lambda>e. is_send e \<or> is_sleep e) (?E i) =
              (if message_ok cfg env (rs ! i)
               then [SendMessage (build_message cfg (rs ! i))] else []))"
  proof (intro allI impI conjI)
    fix i assume "already_sent (rs ! i)"
    then show "?E i = [Ui (Skipping (strip (Name (rs ! i))))]"
      by (rule record_events_skipped)
  next
    fix i assume a: "\<not> already_sent (rs ! i) \<and> pass_returns cfg env i (rs ! i)"
    then have m: "message_ok cfg env (rs ! i)" by (auto simp: pass_returns_def split: if_splits)
    from a have ns: "\<not> already_sent (rs ! i)" and pr: "pass_returns cfg env i (rs ! i)"
      by simp_all
    from record_events_attempt [OF ns m, of "status_idx c" i] pr
    show "filter (\<lambda>e. is_send e \<or> is_sleep e) (?E i) =
        [SendMessage (build_message cfg (rs ! i)), Sleep]" by simp
    from record_events_attempt [OF ns m, of "status_idx c" i] pr
    show "last (?E i) = Sleep" by simp
  next
    fix i assume "i < n" "\<not> pass_returns cfg env i (rs ! i)"
    from raised [OF this] show "Suc i = n" by simp
  next
    fix i assume "i < n" "\<not> pass_returns cfg env i (rs ! i)"
    from raised [OF this] show "fst (send_emails cfg env all_data st) =
        Crashed (if message_ok cfg env (rs ! i) then SheetError else HeaderError)" by simp
  next
    fix i assume "i < n" "\<not> pass_returns cfg env i (rs ! i)"
    from raised [OF this] show "filter (\<lambda>e. is_send e \<or> is_sleep e) (?E i) =
        (if message_ok cfg env (rs ! i) then [SendMessage (build_message cfg (rs ! i))] else [])"
      by simp
  qed
  have full: "(\<forall>i<length rs. pass_returns cfg env i (rs ! i)) \<longrightarrow>
      n = length rs \<and> fst (send_emails cfg env all_data st) = Completed"
  proof
    assume "\<forall>i<length rs. pass_returns cfg env i (rs ! i)"
    then have "?L = None"
      by (simp add: loop_error_none pass_error_returns)
    with none out show "n = length rs \<and> fst (send_emails cfg env all_data st) = Completed"
      by simp
  qed
  from n tr per full
  show "\<exists>n. 0 < n \<and> n \<le> length rs \<and>
      trace (snd (send_emails cfg env all_data st)) =
        trace st @
        [Ui (FoundContacts (length rs)), Ui (LoggingIn (LOGIN_EMAIL cfg)), SmtpConnect] @
        concat (map ?E [0..<n]) @
        (if fst (send_emails cfg env all_data st) = Completed
         then [SmtpQuit, Ui AllFinished] else []) \<and>
      (\<forall>i<n.
         (already_sent (rs ! i) \<longrightarrow> ?E i = [Ui (Skipping (strip (Name (rs ! i))))]) \<and>
         (\<not> already_sent (rs ! i) \<and> pass_returns cfg env i (rs ! i) \<longrightarrow>
            filter (\<lambda>e. is_send e \<or> is_sleep e) (?E i) =
              [SendMessage (build_message cfg (rs ! i)), Sleep] \<and>
            last (?E i) = Sleep) \<and>
         (\<not> pass_returns cfg env i (rs ! i) \<longrightarrow>
            Suc i = n \<and>
            fst (send_emails cfg env all_data st) =
              Crashed (if message_ok cfg env (rs ! i) then SheetError else HeaderError) \<and>
            filter (\<lambda>e. is_send e \<or> is_sleep e) (?E i) =
              (if message_ok cfg env (rs ! i)
               then [SendMessage (build_message cfg (rs ! i))] else []))) \<and>
      ((\<forall>i<length rs. pass_returns cfg env i (rs ! i)) \<longrightarrow>
         n = length rs \<and> fst (send_emails cfg env all_data st) = Completed)"
    by (intro exI [of _ n] conjI)
qed

theorem skip_versus_attempt_witness:
  "trace (snd (send_emails demo_cfg demo_env demo_grid demo_state)) =
     [Ui (FoundContacts 3), Ui (LoggingIn ''me@x.com''), SmtpConnect,
      Ui (Sending ''Ana''),
      SendMessage \<lparr>From = ''me@x.com'', To = ''ana@x.com'', Subject = ''Hello'',
                   Content = ''Hi Ana, re Acme''\<rparr>,
      UpdateCell 3 4 ''Sent'', Ui (SentTo ''Ana'' ''ana@x.com''), Sleep,
      Ui (Skipping ''Bob''),
      Ui (Sending ''Dan''),
      SendMessage \<lparr>From = ''me@x.com'', To = ''dan@x.com'', Subject = ''Hello'',
                   Content = ''Hi Dan, re Dune''\<rparr>,
      UpdateCell 6 4 ''Failed'', Ui (FailedTo ''Dan''), Sleep,
      SmtpQuit, Ui AllFinished]"
proof -
  have pre: "scan_columns 0 demo_grid = Some demo_columns \<and> name_idx demo_columns \<noteq> - 1 \<and>
     email_idx demo_columns \<noteq> - 1 \<and>
     prepare_records demo_columns (header_row_num demo_columns + 1)
       (drop (header_row_num demo_columns) demo_grid) = Some demo_records \<and>
     demo_records \<noteq> [] \<and> login_ok demo_env"
    using demo_scan demo_prepare
    by (simp add: demo_columns_def demo_records_def demo_env_def)
  have ok: "\<forall>i<length demo_records. pass_returns demo_cfg demo_env i (demo_records ! i)"
    by (simp add: demo_records_def pass_returns_def message_ok_def demo_env_def demo_cfg_def
        no_line_breaks_def strip_def isspace_def whitespace_def less_Suc_eq numeral_3_eq_3)
  note inst = mp [OF skip_versus_attempt [where all_data = demo_grid and c = demo_columns
      and rs = demo_records and env = demo_env and cfg = demo_cfg and st = demo_state] pre]
  from inst obtain n where
    t: "trace (snd (send_emails demo_cfg demo_env demo_grid demo_state)) =
        trace demo_state @
        [Ui (FoundContacts (length demo_records)), Ui (LoggingIn (LOGIN_EMAIL demo_cfg)),
         SmtpConnect] @
        concat (map (\<lambda>i. record_events demo_cfg demo_env (status_idx demo_columns) i
                      (demo_records ! i)) [0..<n]) @
        (if fst (send_emails demo_cfg demo_env demo_grid demo_state) = Completed
         then [SmtpQuit, Ui AllFinished] else [])"
    and f: "(\<forall>i<length demo_records. pass_returns demo_cfg demo_env i (demo_records ! i)) \<longrightarrow>
         n = length demo_records \<and>
         fst (send_emails demo_cfg demo_env demo_grid demo_state) = Completed"
    by (elim exE conjE)
  from f ok have n: "n = length demo_records"
    and c: "fst (send_emails demo_cfg demo_env demo_grid demo_state) = Completed" by simp_all
  have u: "[0..<length demo_records] = [0, 1, 2]"
    by (simp add: demo_records_def upt_rec)
  show ?thesis
    unfolding t n c u
    by (simp add: record_events_eq demo_sent [simplified] demo_records_def demo_cfg_def
        demo_env_def demo_state_def demo_columns_def already_sent_def message_ok_def
        build_message_def render_body_def py_replace_def no_line_breaks_def string_ops)
qed

theorem skip_versus_attempt_counterexample:
  "\<not> already_sent \<lparr>Name = ''Bob'', Email = ''bob'' @ [CHR 0x0A] @ ''@x.com'', Business = [],
                    Status = [], row_number = 2\<rparr> \<and>
   \<not> already_sent \<lparr>Name = ''Amy'', Email = ''amy@x.com'', Business = [], Status = [],
                    row_number = 3\<rparr> \<and>
   prepare_records
       \<lparr>name_idx = 0, email_idx = 1, status_idx = 2, business_idx = - 1, header_row_num = 1\<rparr>
       2 [[''Bob'', ''bob'' @ [CHR 0x0A] @ ''@x.com''], [''Amy'', ''amy@x.com'']] =
     Some [\<lparr>Name = ''Bob'', Email = ''bob'' @ [CHR 0x0A] @ ''@x.com'', Business = [],
             Status = [], row_number = 2\<rparr>,
           \<lparr>Name = ''Amy'', Email = ''amy@x.com'', Business = [], Status = [],
             row_number = 3\<rparr>] \<and>
   send_emails demo_cfg demo_env
       [[''Name'', ''Email''], [''Bob'', ''bob'' @ [CHR 0x0A] @ ''@x.com''],
        [''Amy'', ''amy@x.com'']] demo_state =
     (Crashed HeaderError,
      \<lparr>sheet = Map.empty,
        trace = [Ui (FoundContacts 2), Ui (LoggingIn ''me@x.com''), SmtpConnect,
                 Ui (Sending ''Bob'')]\<rparr>) \<and>
   send_emails demo_cfg sheet_down_env
       [[''Name'', ''Email''], [''Bob'', ''bob@x.com''], [''Amy'', ''amy@x.com'']] demo_state =
     (Crashed SheetError,
      \<lparr>sheet = Map.empty,
        trace = [Ui (FoundContacts 2), Ui (LoggingIn ''me@x.com''), SmtpConnect,
                 Ui (Sending ''Bob''),
                 SendMessage \<lparr>From = ''me@x.com'', To = ''bob@x.com'', Subject = ''Hello'',
                              Content = ''Hi Bob, re ''\<rparr>,
                 UpdateRaised 2 3 ''Failed'']\<rparr>)"
proof (intro conjI)
  let ?c = "\<lparr>name_idx = 0, email_idx = 1, status_idx = 2, business_idx = - 1,
      header_row_num = 1\<rparr>"
  let ?bob = "\<lparr>Name = ''Bob'', Email = ''bob'' @ [CHR 0x0A] @ ''@x.com'', Business = [],
      Status = [], row_number = 2\<rparr>"
  let ?amy = "\<lparr>Name = ''Amy'', Email = ''amy@x.com'', Business = [], Status = [],
      row_number = 3\<rparr>"
  let ?bob2 = "\<lparr>Name = ''Bob'', Email = ''bob@x.com'', Business = [],
      Status = [], row_number = 2\<rparr>"
  let ?G = "[[''Name'', ''Email''], [''Bob'', ''bob'' @ [CHR 0x0A] @ ''@x.com''],
      [''Amy'', ''amy@x.com'']]"
  let ?G2 = "[[''Name'', ''Email''], [''Bob'', ''bob@x.com''], [''Amy'', ''amy@x.com'']]"
  show nb: "\<not> already_sent ?bob" by (simp add: status_blank_not_sent)
  show na: "\<not> already_sent ?amy" by (simp add: status_blank_not_sent)
  show "prepare_records ?c 2 [[''Bob'', ''bob'' @ [CHR 0x0A] @ ''@x.com''],
      [''Amy'', ''amy@x.com'']] = Some [?bob, ?amy]"
    by (simp add: py_nth_def strip_def isspace_def whitespace_def)
  have scan: "scan_columns 0 ?G = Some ?c" by (simp add: string_ops)
  have scan2: "scan_columns 0 ?G2 = Some ?c" by (simp add: string_ops)
  have p: "prepare_records ?c (header_row_num ?c + 1) (drop (header_row_num ?c) ?G) =
      Some [?bob, ?amy]"
    by (simp add: py_nth_def strip_def isspace_def whitespace_def)
  have p2: "prepare_records ?c (header_row_num ?c + 1) (drop (header_row_num ?c) ?G2) =
      Some [?bob2, ?amy]"
    by (simp add: py_nth_def strip_def isspace_def whitespace_def)
  have run: "send_emails demo_cfg demo_env ?G demo_state =
    ((case loop_error demo_cfg demo_env 0 [?bob, ?amy] of None \<Rightarrow> Completed
      | Some e \<Rightarrow> Crashed e),
     demo_state\<lparr>sheet := sheet_after (loop_events demo_cfg demo_env (status_idx ?c) 0 [?bob, ?amy])
          (sheet demo_state),
        trace := trace demo_state @
          [Ui (FoundContacts (length [?bob, ?amy])), Ui (LoggingIn (LOGIN_EMAIL demo_cfg)),
           SmtpConnect] @
          loop_events demo_cfg demo_env (status_idx ?c) 0 [?bob, ?amy] @
          (case loop_error demo_cfg demo_env 0 [?bob, ?amy] of
             None \<Rightarrow> [SmtpQuit, Ui AllFinished] | Some e \<Rightarrow> [])\<rparr>)"
    by (rule send_emails_run [OF scan _ _ p]) (simp_all add: demo_env_def)
  have run2: "send_emails demo_cfg sheet_down_env ?G2 demo_state =
    ((case loop_error demo_cfg sheet_down_env 0 [?bob2, ?amy] of None \<Rightarrow> Completed
      | Some e \<Rightarrow> Crashed e),
     demo_state\<lparr>sheet := sheet_after
          (loop_events demo_cfg sheet_down_env (status_idx ?c) 0 [?bob2, ?amy])
          (sheet demo_state),
        trace := trace demo_state @
          [Ui (FoundContacts (length [?bob2, ?amy])), Ui (LoggingIn (LOGIN_EMAIL demo_cfg)),
           SmtpConnect] @
          loop_events demo_cfg sheet_down_env (status_idx ?c) 0 [?bob2, ?amy] @
          (case loop_error demo_cfg sheet_down_env 0 [?bob2, ?amy] of
             None \<Rightarrow> [SmtpQuit, Ui AllFinished] | Some e \<Rightarrow> [])\<rparr>)"
    by (rule send_emails_run [OF scan2 _ _ p2]) (simp_all add: sheet_down_env_def)
  show "send_emails demo_cfg demo_env ?G demo_state =
     (Crashed HeaderError,
      \<lparr>sheet = Map.empty,
        trace = [Ui (FoundContacts 2), Ui (LoggingIn ''me@x.com''), SmtpConnect,
                 Ui (Sending ''Bob'')]\<rparr>)"
    unfolding run
    by (simp add: record_events_eq pass_error_eq already_sent_def message_ok_def
        demo_state_def demo_cfg_def demo_env_def no_line_breaks_def string_ops)
  show "send_emails demo_cfg sheet_down_env ?G2 demo_state =
     (Crashed SheetError,
      \<lparr>sheet = Map.empty,
        trace = [Ui (FoundContacts 2), Ui (LoggingIn ''me@x.com''), SmtpConnect,
                 Ui (Sending ''Bob''),
                 SendMessage \<lparr>From = ''me@x.com'', To = ''bob@x.com'', Subject = ''Hello'',
                              Content = ''Hi Bob, re ''\<rparr>,
                 UpdateRaised 2 3 ''Failed'']\<rparr>)"
    unfolding run2
    by (simp add: record_events_eq pass_error_eq already_sent_def message_ok_def
        demo_state_def demo_cfg_def sheet_down_env_def no_line_breaks_def
        build_message_def render_body_def py_replace_def string_ops)
qed

subsection \<open>The writes of a run\<close>



lemma passes_split:
  assumes "i < n"
  shows "concat (map E [0..<n]) =
         concat (map E [0..<i]) @ E i @ concat (map E [Suc i..<n])"
proof -
  have "[0..<i + (n - i)] = [0..<i] @ [i..<i + (n - i)]"
    by (rule upt_add_eq_append) simp
  moreover have "[i..<n] = i # [Suc i..<n]" using assms by (rule upt_conv_Cons)
  ultimately have "[0..<n] = [0..<i] @ i # [Suc i..<n]" using assms by simp
  then show ?thesis by simp
qed

lemma passes_other_rows:
  assumes "distinct (map row_number rs)" "i < length rs" "n \<le> length rs"
    "\<forall>j \<in> set js. j < n \<and> j \<noteq> i"
  shows "UpdateCell (row_number (rs ! i)) col v \<notin>
           set (concat (map (\<lambda>j. record_events cfg env sidx j (rs ! j)) js))"
proof
  assume "UpdateCell (row_number (rs ! i)) col v \<in>
      set (concat (map (\<lambda>j. record_events cfg env sidx j (rs ! j)) js))"
  then obtain j where j: "j \<in> set js"
    "UpdateCell (row_number (rs ! i)) col v \<in> set (record_events cfg env sidx j (rs ! j))"
    by auto
  from record_events_write [OF j(2)] have "row_number (rs ! i) = row_number (rs ! j)" by simp
  moreover from j(1) assms(3,4) have jl: "j < length rs" "j \<noteq> i" by auto
  ultimately have same: "map row_number rs ! i = map row_number rs ! j"
    using assms(2) by simp
  from assms(1) have "\<forall>a<length (map row_number rs). \<forall>b<length (map row_number rs).
      a \<noteq> b \<longrightarrow> map row_number rs ! a \<noteq> map row_number rs ! b"
    by (simp only: distinct_conv_nth)
  with assms(2) jl have "map row_number rs ! i \<noteq> map row_number rs ! j" by simp
  with same show False by simp
qed



subsection \<open>Status write-back\<close>




subsection \<open>Order of the passes\<close>

lemma records_after_numbers:
  assumes "h \<le> length g"
  shows "map row_number (records_after c h g) =
         map Suc (filter (\<lambda>j. qualifies c (g ! j)) [h..<length g])"
  unfolding records_after_def
  using upt_drop_filter [OF assms, of "qualifies c"]
  by (simp only: kept_rows_numbers) simp

lemma record_events_calls:
  assumes "\<not> already_sent r" "message_ok cfg env r"
  shows "take 2 (record_events cfg env sidx idx r) =
           [Ui (Sending (strip (Name r))), SendMessage (build_message cfg r)] \<and>
         takeWhile is_write (drop 2 (record_events cfg env sidx idx r)) =
           filter is_write (record_events cfg env sidx idx r) \<and>
         filter is_write (record_events cfg env sidx idx r) \<noteq> []"
  using assms by (simp add: record_events_eq)

lemma record_events_cells:
  assumes "ev \<in> set (record_events cfg env sidx idx r)" "is_write ev"
  shows "\<exists>v. ev = UpdateCell (row_number r) (sidx + 1) v \<or>
             ev = UpdateRaised (row_number r) (sidx + 1) v"
  using assms by (auto simp: record_events_eq split: if_splits)

lemma append_eq_cases:
  assumes "p @ q = a @ c"
  shows "(\<exists>us. p = a @ us \<and> us @ q = c) \<or> (\<exists>us. p @ us = a \<and> q = us @ c)"
  using assms by (auto simp: append_eq_append_conv2)

lemma write_after_send:
  assumes "distinct (map row_number rs)" "j < n" "n \<le> length rs"
    "concat (map (\<lambda>i. record_events cfg env sidx i (rs ! i)) [0..<n]) = p @ q"
    "UpdateCell (row_number (rs ! j)) col v \<in> set p"
  shows "\<exists>s. p = concat (map (\<lambda>i. record_events cfg env sidx i (rs ! i)) [0..<j]) @
             [Ui (Sending (strip (Name (rs ! j)))), SendMessage (build_message cfg (rs ! j))] @ s"
proof -
  let ?E = "\<lambda>i. record_events cfg env sidx i (rs ! i)"
  let ?w = "UpdateCell (row_number (rs ! j)) col v"
  let ?A = "concat (map ?E [0..<j])"
  let ?B = "concat (map ?E [Suc j..<n])"
  let ?head = "[Ui (Sending (strip (Name (rs ! j)))), SendMessage (build_message cfg (rs ! j))]"
  have jl: "j < length rs" using assms(2,3) by simp
  have notA: "?w \<notin> set ?A"
    by (rule passes_other_rows [OF assms(1) jl assms(3)]) (use assms(2) in auto)
  have notB: "?w \<notin> set ?B"
    by (rule passes_other_rows [OF assms(1) jl assms(3)]) auto
  from assms(4) have eq: "p @ q = ?A @ (?E j @ ?B)"
    by (simp only: passes_split [OF assms(2), of ?E])
  have noA: "\<not> (\<exists>us. p @ us = ?A \<and> q = us @ (?E j @ ?B))"
  proof
    assume "\<exists>us. p @ us = ?A \<and> q = us @ (?E j @ ?B)"
    then obtain us where "p @ us = ?A" by blast
    then have "set p \<subseteq> set ?A" by (metis set_append Un_upper1)
    with assms(5) notA show False by blast
  qed
  with append_eq_cases [OF eq] obtain us where p: "p = ?A @ us" and rest: "us @ q = ?E j @ ?B"
    by blast
  from assms(5) p notA have inus: "?w \<in> set us" by simp
  then have "?w \<in> set (?E j @ ?B)" by (metis rest set_append UnI1)
  with notB have "?w \<in> set (?E j)" by simp
  from record_events_write [OF this] obtain tl where tl: "?E j = ?head @ tl" by blast
  have eq2: "us @ q = ?head @ (tl @ ?B)"
    using rest unfolding tl by (simp only: append_assoc)
  have noH: "\<not> (\<exists>vs. us @ vs = ?head \<and> q = vs @ (tl @ ?B))"
  proof
    assume "\<exists>vs. us @ vs = ?head \<and> q = vs @ (tl @ ?B)"
    then obtain vs where "us @ vs = ?head" by blast
    then have "set us \<subseteq> set ?head" by (metis set_append Un_upper1)
    with inus show False by auto
  qed
  with append_eq_cases [OF eq2] obtain vs where "us = ?head @ vs" by blast
  with p show ?thesis by simp
qed

lemma later_rows_untouched:
  assumes "distinct (map row_number rs)" "k \<le> length rs" "k \<le> j" "j < length rs"
  shows "sheet_after (concat (map (\<lambda>i. record_events cfg env sidx i (rs ! i)) [0..<k])) s
           (row_number (rs ! j), col) = s (row_number (rs ! j), col)"
proof (rule sheet_after_untouched, rule allI)
  fix v
  show "UpdateCell (row_number (rs ! j)) col v \<notin>
      set (concat (map (\<lambda>i. record_events cfg env sidx i (rs ! i)) [0..<k]))"
    by (rule passes_other_rows [OF assms(1) assms(4) assms(2)]) (use assms(3) in auto)
qed

subsection \<open>Order of the records and of the writes\<close>

text \<open>
  Claim C7. Let the run find the header, keep the records \<open>rs\<close> and log in. The records
  are in the order of their source rows: their row numbers are, in order, the numbers of
  the rows after the header that the record loop keeps, and each record is built from the
  row with its number. The loop runs the passes of the first \<open>n\<close> records one after the
  other in this order, all of them when the run completes, and the sheet at the end of the
  run is the sheet of the start with the writes of these passes applied in order. In the
  pass of a record that is attempted the calls of \<^verbatim>\<open>update_cell\<close> follow the send attempt
  directly, and every call of a pass is at the row of its record and at the status column.
  So at any point of the run, that is after any initial part \<open>p\<close> of the events of the
  loop: when \<open>p\<close> holds a write at the row of record \<open>j\<close>, then \<open>p\<close> starts with the complete
  passes of all the records before \<open>j\<close>, followed by the send attempt of record \<open>j\<close>; and
  after the passes of the first \<open>k\<close> records the cells in the rows of all later records
  are as they were at the start.
\<close>

theorem ordering_prefix:
  "scan_columns 0 all_data = Some c \<and> name_idx c \<noteq> - 1 \<and> email_idx c \<noteq> - 1 \<and>
   prepare_records c (header_row_num c + 1) (drop (header_row_num c) all_data) = Some rs \<and>
   rs \<noteq> [] \<and> login_ok env \<longrightarrow>
     map row_number rs =
       map Suc (filter (\<lambda>j. qualifies c (all_data ! j)) [header_row_num c..<length all_data]) \<and>
     (\<forall>i<length rs.
        rs ! i = contact_of c (row_number (rs ! i)) (all_data ! (row_number (rs ! i) - 1))) \<and>
     (\<exists>n. 0 < n \<and> n \<le> length rs \<and>
        (fst (send_emails cfg env all_data st) = Completed \<longrightarrow> n = length rs) \<and>
        trace (snd (send_emails cfg env all_data st)) =
          trace st @
          [Ui (FoundContacts (length rs)), Ui (LoggingIn (LOGIN_EMAIL cfg)), SmtpConnect] @
          concat (map (\<lambda>i. record_events cfg env (status_idx c) i (rs ! i)) [0..<n]) @
          (if fst (send_emails cfg env all_data st) = Completed
           then [SmtpQuit, Ui AllFinished] else []) \<and>
        sheet (snd (send_emails cfg env all_data st)) =
          sheet_after
            (concat (map (\<lambda>i. record_events cfg env (status_idx c) i (rs ! i)) [0..<n]))
            (sheet st) \<and>
        (\<forall>i<n. \<not> already_sent (rs ! i) \<and> message_ok cfg env (rs ! i) \<longrightarrow>
           take 2 (record_events cfg env (status_idx c) i (rs ! i)) =
             [Ui (Sending (strip (Name (rs ! i)))), SendMessage (build_message cfg (rs ! i))] \<and>
           takeWhile is_write (drop 2 (record_events cfg env (status_idx c) i (rs ! i))) =
             filter is_write (record_events cfg env (status_idx c) i (rs ! i)) \<and>
           filter is_write (record_events cfg env (status_idx c) i (rs ! i)) \<noteq> []) \<and>
        (\<forall>i<n. \<forall>ev \<in> set (record_events cfg env (status_idx c) i (rs ! i)). is_write ev \<longrightarrow>
           (\<exists>v. ev = UpdateCell (row_number (rs ! i)) (status_idx c + 1) v \<or>
                ev = UpdateRaised (row_number (rs ! i)) (status_idx c + 1) v)) \<and>
        (\<forall>j p q v. j < n \<and>
           concat (map (\<lambda>i. record_events cfg env (status_idx c) i (rs ! i)) [0..<n]) = p @ q \<and>
           UpdateCell (row_number (rs ! j)) (status_idx c + 1) v \<in> set p \<longrightarrow>
           (\<exists>s. p =
              concat (map (\<lambda>i. record_events cfg env (status_idx c) i (rs ! i)) [0..<j]) @
              [Ui (Sending (strip (Name (rs ! j)))), SendMessage (build_message cfg (rs ! j))] @
              s)) \<and>
        (\<forall>k j col. k \<le> n \<and> k \<le> j \<and> j < length rs \<longrightarrow>
           sheet_after
             (concat (map (\<lambda>i. record_events cfg env (status_idx c) i (rs ! i)) [0..<k]))
             (sheet st) (row_number (rs ! j), col) = sheet st (row_number (rs ! j), col)))"
proof
  assume "scan_columns 0 all_data = Some c \<and> name_idx c \<noteq> - 1 \<and> email_idx c \<noteq> - 1 \<and>
   prepare_records c (header_row_num c + 1) (drop (header_row_num c) all_data) = Some rs \<and>
   rs \<noteq> [] \<and> login_ok env"
  then have h: "scan_columns 0 all_data = Some c" "name_idx c \<noteq> - 1" "email_idx c \<noteq> - 1"
    "prepare_records c (header_row_num c + 1) (drop (header_row_num c) all_data) = Some rs"
    "rs \<noteq> []" "login_ok env" by simp_all
  let ?E = "\<lambda>i. record_events cfg env (status_idx c) i (rs ! i)"
  let ?L = "loop_error cfg env 0 rs"
  from found_records [OF h(1,2,4)] have rs: "rs = records_after c (header_row_num c) all_data"
    and hl: "header_row_num c \<le> length all_data" by simp_all
  have dist: "distinct (map row_number rs)" unfolding rs by (rule records_after_distinct)
  have order: "map row_number rs =
      map Suc (filter (\<lambda>j. qualifies c (all_data ! j)) [header_row_num c..<length all_data])"
    unfolding rs by (rule records_after_numbers [OF hl])
  have source: "\<forall>i<length rs.
      rs ! i = contact_of c (row_number (rs ! i)) (all_data ! (row_number (rs ! i) - 1))"
  proof (intro allI impI)
    fix i assume "i < length rs"
    then have "rs ! i \<in> set (records_after c (header_row_num c) all_data)"
      using rs by simp
    from records_after_member [OF this hl]
    show "rs ! i = contact_of c (row_number (rs ! i)) (all_data ! (row_number (rs ! i) - 1))"
      by simp
  qed
  from run_passes [OF h, of cfg st] obtain n where n: "0 < n" "n \<le> length rs"
    and run: "send_emails cfg env all_data st =
      ((case ?L of None \<Rightarrow> Completed | Some e \<Rightarrow> Crashed e),
       st\<lparr>sheet := sheet_after (concat (map ?E [0..<n])) (sheet st),
          trace := trace st @
            [Ui (FoundContacts (length rs)), Ui (LoggingIn (LOGIN_EMAIL cfg)), SmtpConnect] @
            concat (map ?E [0..<n]) @
            (case ?L of None \<Rightarrow> [SmtpQuit, Ui AllFinished] | Some e \<Rightarrow> [])\<rparr>)"
    and none: "?L = None \<longrightarrow> n = length rs \<and> (\<forall>i<length rs. pass_error cfg env i (rs ! i) = None)"
    by (elim exE conjE)
  have out: "fst (send_emails cfg env all_data st) =
      (case ?L of None \<Rightarrow> Completed | Some e \<Rightarrow> Crashed e)"
    unfolding run by simp
  have all: "fst (send_emails cfg env all_data st) = Completed \<longrightarrow> n = length rs"
    using none unfolding out by (cases ?L) simp_all
  have tr: "trace (snd (send_emails cfg env all_data st)) =
        trace st @
        [Ui (FoundContacts (length rs)), Ui (LoggingIn (LOGIN_EMAIL cfg)), SmtpConnect] @
        concat (map ?E [0..<n]) @
        (if fst (send_emails cfg env all_data st) = Completed
         then [SmtpQuit, Ui AllFinished] else [])"
    unfolding out unfolding run by (cases ?L) simp_all
  have sh: "sheet (snd (send_emails cfg env all_data st)) =
      sheet_after (concat (map ?E [0..<n])) (sheet st)"
    unfolding run by simp
  have calls: "\<forall>i<n. \<not> already_sent (rs ! i) \<and> message_ok cfg env (rs ! i) \<longrightarrow>
      take 2 (?E i) =
        [Ui (Sending (strip (Name (rs ! i)))), SendMessage (build_message cfg (rs ! i))] \<and>
      takeWhile is_write (drop 2 (?E i)) = filter is_write (?E i) \<and>
      filter is_write (?E i) \<noteq> []"
  proof (intro allI impI)
    fix i assume "\<not> already_sent (rs ! i) \<and> message_ok cfg env (rs ! i)"
    then have "\<not> already_sent (rs ! i)" "message_ok cfg env (rs ! i)" by simp_all
    then show "take 2 (?E i) =
        [Ui (Sending (strip (Name (rs ! i)))), SendMessage (build_message cfg (rs ! i))] \<and>
      takeWhile is_write (drop 2 (?E i)) = filter is_write (?E i) \<and>
      filter is_write (?E i) \<noteq> []"
      by (rule record_events_calls)
  qed
  have cells: "\<forall>i<n. \<forall>ev \<in> set (?E i). is_write ev \<longrightarrow>
      (\<exists>v. ev = UpdateCell (row_number (rs ! i)) (status_idx c + 1) v \<or>
           ev = UpdateRaised (row_number (rs ! i)) (status_idx c + 1) v)"
  proof (intro allI impI ballI)
    fix i ev assume "ev \<in> set (?E i)" "is_write ev"
    then show "\<exists>v. ev = UpdateCell (row_number (rs ! i)) (status_idx c + 1) v \<or>
           ev = UpdateRaised (row_number (rs ! i)) (status_idx c + 1) v"
      by (rule record_events_cells)
  qed
  have prefix: "\<forall>j p q v. j < n \<and> concat (map ?E [0..<n]) = p @ q \<and>
      UpdateCell (row_number (rs ! j)) (status_idx c + 1) v \<in> set p \<longrightarrow>
      (\<exists>s. p = concat (map ?E [0..<j]) @
         [Ui (Sending (strip (Name (rs ! j)))), SendMessage (build_message cfg (rs ! j))] @ s)"
  proof (intro allI impI)
    fix j p q v
    assume a: "j < n \<and> concat (map ?E [0..<n]) = p @ q \<and>
      UpdateCell (row_number (rs ! j)) (status_idx c + 1) v \<in> set p"
    then have "j < n" "concat (map ?E [0..<n]) = p @ q"
      "UpdateCell (row_number (rs ! j)) (status_idx c + 1) v \<in> set p" by simp_all
    from write_after_send [OF dist this(1) n(2) this(2,3)]
    show "\<exists>s. p = concat (map ?E [0..<j]) @
         [Ui (Sending (strip (Name (rs ! j)))), SendMessage (build_message cfg (rs ! j))] @ s" .
  qed
  have later: "\<forall>k j col. k \<le> n \<and> k \<le> j \<and> j < length rs \<longrightarrow>
      sheet_after (concat (map ?E [0..<k])) (sheet st) (row_number (rs ! j), col) =
        sheet st (row_number (rs ! j), col)"
  proof (intro allI impI)
    fix k j col assume "k \<le> n \<and> k \<le> j \<and> j < length rs"
    then have "k \<le> length rs" "k \<le> j" "j < length rs" using n(2) by simp_all
    from later_rows_untouched [OF dist this]
    show "sheet_after (concat (map ?E [0..<k])) (sheet st) (row_number (rs ! j), col) =
        sheet st (row_number (rs ! j), col)" .
  qed
  from n all tr sh calls cells prefix later
  have "\<exists>n. 0 < n \<and> n \<le> length rs \<and>
        (fst (send_emails cfg env all_data st) = Completed \<longrightarrow> n = length rs) \<and>
        trace (snd (send_emails cfg env all_data st)) =
          trace st @
          [Ui (FoundContacts (length rs)), Ui (LoggingIn (LOGIN_EMAIL cfg)), SmtpConnect] @
          concat (map ?E [0..<n]) @
          (if fst (send_emails cfg env all_data st) = Completed
           then [SmtpQuit, Ui AllFinished] else []) \<and>
        sheet (snd (send_emails cfg env all_data st)) =
          sheet_after (concat (map ?E [0..<n])) (sheet st) \<and>
        (\<forall>i<n. \<not> already_sent (rs ! i) \<and> message_ok cfg env (rs ! i) \<longrightarrow>
           take 2 (?E i) =
             [Ui (Sending (strip (Name (rs ! i)))), SendMessage (build_message cfg (rs ! i))] \<and>
           takeWhile is_write (drop 2 (?E i)) = filter is_write (?E i) \<and>
           filter is_write (?E i) \<noteq> []) \<and>
        (\<forall>i<n. \<forall>ev \<in> set (?E i). is_write ev \<longrightarrow>
           (\<exists>v. ev = UpdateCell (row_number (rs ! i)) (status_idx c + 1) v \<or>
                ev = UpdateRaised (row_number (rs ! i)) (status_idx c + 1) v)) \<and>
        (\<forall>j p q v. j < n \<and> concat (map ?E [0..<n]) = p @ q \<and>
           UpdateCell (row_number (rs ! j)) (status_idx c + 1) v \<in> set p \<longrightarrow>
           (\<exists>s. p = concat (map ?E [0..<j]) @
              [Ui (Sending (strip (Name (rs ! j)))), SendMessage (build_message cfg (rs ! j))] @
              s)) \<and>
        (\<forall>k j col. k \<le> n \<and> k \<le> j \<and> j < length rs \<longrightarrow>
           sheet_after (concat (map ?E [0..<k])) (sheet st) (row_number (rs ! j), col) =
             sheet st (row_number (rs ! j), col))"
    by (intro exI [of _ n] conjI)
  with order source
  show "map row_number rs =
       map Suc (filter (\<lambda>j. qualifies c (all_data ! j)) [header_row_num c..<length all_data]) \<and>
     (\<forall>i<length rs.
        rs ! i = contact_of c (row_number (rs ! i)) (all_data ! (row_number (rs ! i) - 1))) \<and>
     (\<exists>n. 0 < n \<and> n \<le> length rs \<and>
        (fst (send_emails cfg env all_data st) = Completed \<longrightarrow> n = length rs) \<and>
        trace (snd (send_emails cfg env all_data st)) =
          trace st @
          [Ui (FoundContacts (length rs)), Ui (LoggingIn (LOGIN_EMAIL cfg)), SmtpConnect] @
          concat (map ?E [0..<n]) @
          (if fst (send_emails cfg env all_data st) = Completed
           then [SmtpQuit, Ui AllFinished] else []) \<and>
        sheet (snd (send_emails cfg env all_data st)) =
          sheet_after (concat (map ?E [0..<n])) (sheet st) \<and>
        (\<forall>i<n. \<not> already_sent (rs ! i) \<and> message_ok cfg env (rs ! i) \<longrightarrow>
           take 2 (?E i) =
             [Ui (Sending (strip (Name (rs ! i)))), SendMessage (build_message cfg (rs ! i))] \<and>
           takeWhile is_write (drop 2 (?E i)) = filter is_write (?E i) \<and>
           filter is_write (?E i) \<noteq> []) \<and>
        (\<forall>i<n. \<forall>ev \<in> set (?E i). is_write ev \<longrightarrow>
           (\<exists>v. ev = UpdateCell (row_number (rs ! i)) (status_idx c + 1) v \<or>
                ev = UpdateRaised (row_number (rs ! i)) (status_idx c + 1) v)) \<and>
        (\<forall>j p q v. j < n \<and> concat (map ?E [0..<n]) = p @ q \<and>
           UpdateCell (row_number (rs ! j)) (status_idx c + 1) v \<in> set p \<longrightarrow>
           (\<exists>s. p = concat (map ?E [0..<j]) @
              [Ui (Sending (strip (Name (rs ! j)))), SendMessage (build_message cfg (rs ! j))] @
              s)) \<and>
        (\<forall>k j col. k \<le> n \<and> k \<le> j \<and> j < length rs \<longrightarrow>
           sheet_after (concat (map ?E [0..<k])) (sheet st) (row_number (rs ! j), col) =
             sheet st (row_number (rs ! j), col)))"
    by (intro conjI)
qed

theorem ordering_prefix_witness:
  "map Suc (filter (\<lambda>j. qualifies demo_columns (demo_grid ! j)) [2..<6]) = [3, 4, 6] \<and>
   sheet_after (record_events demo_cfg demo_env 3 0 (demo_records ! 0)) Map.empty (6, 4) = None \<and>
   sheet (snd (send_emails demo_cfg demo_env demo_grid demo_state)) (3, 4) = Some ''Sent'' \<and>
   sheet (snd (send_emails demo_cfg demo_env demo_grid demo_state)) (4, 4) = None \<and>
   sheet (snd (send_emails demo_cfg demo_env demo_grid demo_state)) (6, 4) = Some ''Failed''"
proof -
  have pre: "scan_columns 0 demo_grid = Some demo_columns \<and> name_idx demo_columns \<noteq> - 1 \<and>
     email_idx demo_columns \<noteq> - 1 \<and>
     prepare_records demo_columns (header_row_num demo_columns + 1)
       (drop (header_row_num demo_columns) demo_grid) = Some demo_records \<and>
     demo_records \<noteq> [] \<and> login_ok demo_env"
    using demo_scan demo_prepare
    by (simp add: demo_columns_def demo_records_def demo_env_def)
  note inst = mp [OF ordering_prefix [where all_data = demo_grid and c = demo_columns
      and rs = demo_records and env = demo_env and cfg = demo_cfg and st = demo_state] pre]
  let ?run = "send_emails demo_cfg demo_env demo_grid demo_state"
  let ?E = "\<lambda>i. record_events demo_cfg demo_env (status_idx demo_columns) i (demo_records ! i)"
  from inst have order: "map row_number demo_records =
      map Suc (filter (\<lambda>j. qualifies demo_columns (demo_grid ! j))
        [header_row_num demo_columns..<length demo_grid])"
    by (rule conjunct1)
  have w1: "map Suc (filter (\<lambda>j. qualifies demo_columns (demo_grid ! j)) [2..<6]) = [3, 4, 6]"
  proof -
    have "header_row_num demo_columns = 2" "length demo_grid = 6"
      by (simp_all add: demo_columns_def demo_grid_def)
    with order have "map Suc (filter (\<lambda>j. qualifies demo_columns (demo_grid ! j)) [2..<6]) =
        map row_number demo_records" by simp
    then show ?thesis by (simp add: demo_records_def)
  qed
  from conjunct2 [OF conjunct2 [OF inst]] obtain n where n: "0 < n" "n \<le> length demo_records"
    and full: "fst ?run = Completed \<longrightarrow> n = length demo_records"
    and sh: "sheet (snd ?run) = sheet_after (concat (map ?E [0..<n])) (sheet demo_state)"
    and later: "\<forall>k j col. k \<le> n \<and> k \<le> j \<and> j < length demo_records \<longrightarrow>
           sheet_after (concat (map ?E [0..<k])) (sheet demo_state)
             (row_number (demo_records ! j), col) =
           sheet demo_state (row_number (demo_records ! j), col)"
    by (elim exE conjE)
  have l: "length demo_records = 3" by (simp add: demo_records_def)
  from later n(1) l have "sheet_after (concat (map ?E [0..<1])) (sheet demo_state)
      (row_number (demo_records ! 2), 4) = sheet demo_state (row_number (demo_records ! 2), 4)"
    by (intro later [rule_format]) simp
  then have w2: "sheet_after (record_events demo_cfg demo_env 3 0 (demo_records ! 0)) Map.empty
      (6, 4) = None"
    by (simp add: demo_columns_def demo_state_def demo_records_def)
  have run: "?run =
    ((case loop_error demo_cfg demo_env 0 demo_records of None \<Rightarrow> Completed
      | Some e \<Rightarrow> Crashed e),
     demo_state\<lparr>sheet := sheet_after
          (loop_events demo_cfg demo_env (status_idx demo_columns) 0 demo_records)
          (sheet demo_state),
        trace := trace demo_state @
          [Ui (FoundContacts (length demo_records)), Ui (LoggingIn (LOGIN_EMAIL demo_cfg)),
           SmtpConnect] @
          loop_events demo_cfg demo_env (status_idx demo_columns) 0 demo_records @
          (case loop_error demo_cfg demo_env 0 demo_records of
             None \<Rightarrow> [SmtpQuit, Ui AllFinished] | Some e \<Rightarrow> [])\<rparr>)"
    by (rule send_emails_run [OF demo_scan _ _ demo_prepare])
       (simp_all add: demo_env_def demo_columns_def demo_records_def)
  have "loop_error demo_cfg demo_env 0 demo_records = None"
    by (simp add: demo_records_def pass_error_eq already_sent_def message_ok_def demo_cfg_def
        demo_env_def no_line_breaks_def string_ops)
  then have "fst ?run = Completed" unfolding run by simp
  with full l have n3: "n = 3" by simp
  have u: "[0..<3] = [0, 1, 2]" by (simp add: upt_rec)
  have final: "sheet (snd ?run) =
      sheet_after [UpdateCell 3 4 ''Sent'', UpdateCell 6 4 ''Failed''] Map.empty"
    unfolding sh n3 u
    by (simp add: record_events_eq demo_records_def demo_cfg_def demo_env_def demo_state_def
        demo_columns_def already_sent_def message_ok_def no_line_breaks_def string_ops)
  have w3: "sheet (snd ?run) (3, 4) = Some ''Sent''" unfolding final by simp
  have w4: "sheet (snd ?run) (4, 4) = None" unfolding final by simp
  have w5: "sheet (snd ?run) (6, 4) = Some ''Failed''" unfolding final by simp
  from w1 w2 w3 w4 w5 show ?thesis by (intro conjI)
qed

subsection \<open>The status index of a header without a status label\<close>

text \<open>
  Claim C6, as the code has it. Let \<open>k\<close> be the header row and let no cell of it
  normalize to \<open>status\<close>. The status index is the length of the header row, one past its
  last column. The status of a record is then read from the cell at that position when
  the record's row is longer than the header row, and is the empty string otherwise. So
  when no row after the header is longer than the header row, every record has the empty
  status and none is skipped as already sent.
\<close>

theorem status_sentinel_reads:
  "k < length all_data \<and> is_header_row (all_data ! k) \<and>
   (\<forall>j<k. \<not> is_header_row (all_data ! j)) \<and>
   ''status'' \<notin> set (map normalize (all_data ! k)) \<longrightarrow>
     (\<exists>c rs. scan_columns 0 all_data = Some c \<and>
        status_idx c = int (length (all_data ! k)) \<and>
        prepare_records c (header_row_num c + 1) (drop (header_row_num c) all_data) = Some rs \<and>
        (\<forall>r \<in> set rs.
           Status r =
             (if length (all_data ! k) < length (all_data ! (row_number r - 1))
              then all_data ! (row_number r - 1) ! length (all_data ! k) else [])) \<and>
        ((\<forall>j. k < j \<and> j < length all_data \<longrightarrow>
             length (all_data ! j) \<le> length (all_data ! k)) \<longrightarrow>
         (\<forall>r \<in> set rs. Status r = [] \<and> \<not> already_sent r)))"
proof
  assume "k < length all_data \<and> is_header_row (all_data ! k) \<and>
    (\<forall>j<k. \<not> is_header_row (all_data ! j)) \<and>
    ''status'' \<notin> set (map normalize (all_data ! k))"
  then have k: "k < length all_data" "is_header_row (all_data ! k)"
    "\<forall>j<k. \<not> is_header_row (all_data ! j)"
    and nos: "''status'' \<notin> set (map normalize (all_data ! k))" by simp_all
  from scan_columns_first [OF k, of 0] obtain c where
    c: "scan_columns 0 all_data = Some c" "header_row_num c = 0 + k + 1"
       "leftmost (all_data ! k) ''name'' (name_idx c)"
       "leftmost (all_data ! k) ''email'' (email_idx c)"
       "if ''status'' \<in> set (map normalize (all_data ! k))
        then leftmost (all_data ! k) ''status'' (status_idx c)
        else status_idx c = int (length (all_data ! k))"
       "if ''business name'' \<in> set (map normalize (all_data ! k))
        then leftmost (all_data ! k) ''business name'' (business_idx c)
        else business_idx c = - 1"
    by (elim exE conjE)
  have h: "header_row_num c = k + 1" using c(2) by simp
  have sidx: "status_idx c = int (length (all_data ! k))" using c(5) nos by simp
  have r: "0 \<le> name_idx c" "0 \<le> email_idx c" "0 \<le> status_idx c" "- 1 \<le> business_idx c"
    using c(3,4,6) sidx by (simp_all add: leftmost_def split: if_splits)
  let ?rs = "records_after c (k + 1) all_data"
  have hk: "k + 1 \<le> length all_data" using k(1) by simp
  have prep: "prepare_records c (header_row_num c + 1) (drop (header_row_num c) all_data) = Some ?rs"
    unfolding h by (rule prepare_records_after [OF r])
  have reads: "\<forall>r \<in> set ?rs. Status r =
      (if length (all_data ! k) < length (all_data ! (row_number r - 1))
       then all_data ! (row_number r - 1) ! length (all_data ! k) else [])"
  proof
    fix r assume "r \<in> set ?rs"
    from records_after_member [OF this hk]
    have "r = contact_of c (row_number r) (all_data ! (row_number r - 1))" by simp
    then have "Status r = Status (contact_of c (row_number r) (all_data ! (row_number r - 1)))"
      by simp
    then show "Status r =
      (if length (all_data ! k) < length (all_data ! (row_number r - 1))
       then all_data ! (row_number r - 1) ! length (all_data ! k) else [])"
      by (simp add: contact_of_def sidx)
  qed
  have blank: "\<forall>r \<in> set ?rs. Status r = [] \<and> \<not> already_sent r"
    if short: "\<forall>j. k < j \<and> j < length all_data \<longrightarrow>
        length (all_data ! j) \<le> length (all_data ! k)"
  proof
    fix r assume in_rs: "r \<in> set ?rs"
    from records_after_member [OF in_rs hk]
    have "k + 1 + 1 \<le> row_number r" "row_number r \<le> length all_data" by simp_all
    then have "k < row_number r - 1 \<and> row_number r - 1 < length all_data" by arith
    with short have "length (all_data ! (row_number r - 1)) \<le> length (all_data ! k)" by blast
    with reads in_rs have "Status r = []" by simp
    then show "Status r = [] \<and> \<not> already_sent r" by (simp add: status_blank_not_sent)
  qed
  from c(1) sidx prep reads blank
  show "\<exists>c rs. scan_columns 0 all_data = Some c \<and>
        status_idx c = int (length (all_data ! k)) \<and>
        prepare_records c (header_row_num c + 1) (drop (header_row_num c) all_data) = Some rs \<and>
        (\<forall>r \<in> set rs.
           Status r =
             (if length (all_data ! k) < length (all_data ! (row_number r - 1))
              then all_data ! (row_number r - 1) ! length (all_data ! k) else [])) \<and>
        ((\<forall>j. k < j \<and> j < length all_data \<longrightarrow>
             length (all_data ! j) \<le> length (all_data ! k)) \<longrightarrow>
         (\<forall>r \<in> set rs. Status r = [] \<and> \<not> already_sent r))"
    by (intro exI conjI impI)
qed

theorem status_sentinel_reads_witness:
  "\<exists>c rs. scan_columns 0 [[''Name'', ''Email''], [''Bob'', ''bob@x.com''],
                           [''Amy'', ''amy@x.com'']] = Some c \<and>
     status_idx c = 2 \<and>
     prepare_records c (header_row_num c + 1) (drop (header_row_num c)
        [[''Name'', ''Email''], [''Bob'', ''bob@x.com''], [''Amy'', ''amy@x.com'']]) = Some rs \<and>
     map row_number rs = [2, 3] \<and>
     (\<forall>r \<in> set rs. Status r = [] \<and> \<not> already_sent r)"
proof -
  let ?G = "[[''Name'', ''Email''], [''Bob'', ''bob@x.com''], [''Amy'', ''amy@x.com'']]"
  have pre: "(0::nat) < length ?G \<and> is_header_row (?G ! 0) \<and>
     (\<forall>j<0. \<not> is_header_row (?G ! j)) \<and> ''status'' \<notin> set (map normalize (?G ! 0))"
    by (simp add: is_header_row_def string_ops)
  have short: "\<forall>j. 0 < j \<and> j < length ?G \<longrightarrow> length (?G ! j) \<le> length (?G ! 0)"
    by (auto simp: less_Suc_eq numeral_3_eq_3)
  note t = mp [OF status_sentinel_reads [where k = 0 and all_data = ?G] pre]
  from t obtain c rs where f: "scan_columns 0 ?G = Some c"
    "status_idx c = int (length (?G ! 0))"
    "prepare_records c (header_row_num c + 1) (drop (header_row_num c) ?G) = Some rs"
    "(\<forall>j. 0 < j \<and> j < length ?G \<longrightarrow> length (?G ! j) \<le> length (?G ! 0)) \<longrightarrow>
       (\<forall>r \<in> set rs. Status r = [] \<and> \<not> already_sent r)"
    by (elim exE conjE)
  from f(4) short have blank: "\<forall>r \<in> set rs. Status r = [] \<and> \<not> already_sent r" by blast
  have cv: "c = \<lparr>name_idx = 0, email_idx = 1, status_idx = 2, business_idx = - 1,
      header_row_num = 1\<rparr>"
    using f(1) by (simp add: string_ops)
  have "map row_number rs = [2, 3]"
    using f(3) unfolding cv by (auto simp: py_nth_def strip_def isspace_def whitespace_def)
  moreover have "status_idx c = 2" using f(2) by simp
  ultimately show ?thesis using f(1,3) blank by (intro exI conjI)
qed

theorem status_sentinel_counterexample:
  "''status'' \<notin> set (map normalize [''Name'', ''Email'']) \<and>
   scan_columns 0 [[''Name'', ''Email''], [''Bob'', ''bob@x.com'', ''sent'']] =
     Some \<lparr>name_idx = 0, email_idx = 1, status_idx = 2, business_idx = - 1, header_row_num = 1\<rparr> \<and>
   prepare_records
       \<lparr>name_idx = 0, email_idx = 1, status_idx = 2, business_idx = - 1, header_row_num = 1\<rparr>
       2 (drop 1 [[''Name'', ''Email''], [''Bob'', ''bob@x.com'', ''sent'']]) =
     Some [\<lparr>Name = ''Bob'', Email = ''bob@x.com'', Business = [], Status = ''sent'',
            row_number = 2\<rparr>] \<and>
   already_sent \<lparr>Name = ''Bob'', Email = ''bob@x.com'', Business = [], Status = ''sent'',
                 row_number = 2\<rparr> \<and>
   send_emails demo_cfg demo_env [[''Name'', ''Email''], [''Bob'', ''bob@x.com'', ''sent'']]
       demo_state =
     (Completed,
      \<lparr>sheet = Map.empty,
        trace = [Ui (FoundContacts 1), Ui (LoggingIn ''me@x.com''), SmtpConnect,
                 Ui (Skipping ''Bob''), SmtpQuit, Ui AllFinished]\<rparr>)"
proof (intro conjI)
  show "''status'' \<notin> set (map normalize [''Name'', ''Email''])"
    by (simp add: string_ops)
  show scan: "scan_columns 0 [[''Name'', ''Email''], [''Bob'', ''bob@x.com'', ''sent'']] =
     Some \<lparr>name_idx = 0, email_idx = 1, status_idx = 2, business_idx = - 1, header_row_num = 1\<rparr>"
    by (simp add: string_ops)
  show prep: "prepare_records
       \<lparr>name_idx = 0, email_idx = 1, status_idx = 2, business_idx = - 1, header_row_num = 1\<rparr>
       2 (drop 1 [[''Name'', ''Email''], [''Bob'', ''bob@x.com'', ''sent'']]) =
     Some [\<lparr>Name = ''Bob'', Email = ''bob@x.com'', Business = [], Status = ''sent'',
            row_number = 2\<rparr>]"
    by (simp add: py_nth_def strip_def isspace_def whitespace_def)
  show sent: "already_sent \<lparr>Name = ''Bob'', Email = ''bob@x.com'', Business = [], Status = ''sent'',
                 row_number = 2\<rparr>"
    by (simp add: already_sent_def string_ops)
  let ?c = "\<lparr>name_idx = 0, email_idx = 1, status_idx = 2, business_idx = - 1,
      header_row_num = 1\<rparr>"
  let ?r = "\<lparr>Name = ''Bob'', Email = ''bob@x.com'', Business = [], Status = ''sent'',
      row_number = 2\<rparr>"
  have p: "prepare_records ?c (header_row_num ?c + 1)
      (drop (header_row_num ?c) [[''Name'', ''Email''], [''Bob'', ''bob@x.com'', ''sent'']]) =
      Some [?r]"
    by (simp add: py_nth_def strip_def isspace_def whitespace_def)
  have run: "send_emails demo_cfg demo_env
       [[''Name'', ''Email''], [''Bob'', ''bob@x.com'', ''sent'']] demo_state =
    ((case loop_error demo_cfg demo_env 0 [?r] of None \<Rightarrow> Completed | Some e \<Rightarrow> Crashed e),
     demo_state\<lparr>sheet := sheet_after (loop_events demo_cfg demo_env (status_idx ?c) 0 [?r])
          (sheet demo_state),
        trace := trace demo_state @
          [Ui (FoundContacts (length [?r])), Ui (LoggingIn (LOGIN_EMAIL demo_cfg)),
           SmtpConnect] @
          loop_events demo_cfg demo_env (status_idx ?c) 0 [?r] @
          (case loop_error demo_cfg demo_env 0 [?r] of
             None \<Rightarrow> [SmtpQuit, Ui AllFinished] | Some e \<Rightarrow> [])\<rparr>)"
    by (rule send_emails_run [OF scan _ _ p]) (simp_all add: demo_env_def)
  show "send_emails demo_cfg demo_env [[''Name'', ''Email''], [''Bob'', ''bob@x.com'', ''sent'']]
       demo_state =
     (Completed,
      \<lparr>sheet = Map.empty,
        trace = [Ui (FoundContacts 1), Ui (LoggingIn ''me@x.com''), SmtpConnect,
                 Ui (Skipping ''Bob''), SmtpQuit, Ui AllFinished]\<rparr>)"
    unfolding run
    by (simp add: record_events_eq pass_error_eq already_sent_def demo_cfg_def demo_state_def
        string_ops)
qed

lemma strip_blank:
  assumes "\<forall>ch \<in> set s. isspace ch"
  shows "strip s = []"
proof -
  have d: "dropWhile isspace s = []" using assms by (induction s) simp_all
  show ?thesis unfolding strip_def d by simp
qed

subsection \<open>A record without a name\<close>

lemma pass_reached:
  assumes "scan_columns 0 g = Some c" "name_idx c \<noteq> - 1" "email_idx c \<noteq> - 1"
    "prepare_records c (header_row_num c + 1) (drop (header_row_num c) g) = Some rs"
    "login_ok env" "i < length rs" "\<forall>m<i. pass_returns cfg env m (rs ! m)"
  shows "set (record_events cfg env (status_idx c) i (rs ! i)) \<subseteq>
         set (trace (snd (send_emails cfg env g st)))"
proof -
  let ?E = "\<lambda>i. record_events cfg env (status_idx c) i (rs ! i)"
  let ?L = "loop_error cfg env 0 rs"
  from assms(6) have ne: "rs \<noteq> []" by auto
  from run_passes [OF assms(1-4) ne assms(5), of cfg st] obtain n where n: "0 < n" "n \<le> length rs"
    and run: "send_emails cfg env g st =
      ((case ?L of None \<Rightarrow> Completed | Some e \<Rightarrow> Crashed e),
       st\<lparr>sheet := sheet_after (concat (map ?E [0..<n])) (sheet st),
          trace := trace st @
            [Ui (FoundContacts (length rs)), Ui (LoggingIn (LOGIN_EMAIL cfg)), SmtpConnect] @
            concat (map ?E [0..<n]) @
            (case ?L of None \<Rightarrow> [SmtpQuit, Ui AllFinished] | Some e \<Rightarrow> [])\<rparr>)"
    and none: "?L = None \<longrightarrow> n = length rs \<and> (\<forall>i<length rs. pass_error cfg env i (rs ! i) = None)"
    and some: "?L \<noteq> None \<longrightarrow> pass_error cfg env (n - 1) (rs ! (n - 1)) = ?L"
    by (elim exE conjE)
  have "i < n"
  proof (cases "?L = None")
    case True
    with none assms(6) show ?thesis by simp
  next
    case False
    with some have "pass_error cfg env (n - 1) (rs ! (n - 1)) \<noteq> None" by simp
    then have "\<not> pass_returns cfg env (n - 1) (rs ! (n - 1))"
      by (simp add: pass_error_returns)
    with assms(7) have "\<not> n - 1 < i" by blast
    with n(1) show ?thesis by simp
  qed
  then have "set (?E i) \<subseteq> set (concat (map ?E [0..<n]))" by auto
  then show ?thesis unfolding run by auto
qed

text \<open>
  Claim C9. Let the run find the header and keep the records \<open>rs\<close>, and let row \<open>j\<close>, after
  the header row, cover the name and the email column and have an email cell that is not
  blank, whatever its name cell holds. Then the row is one of the records, with its row
  number. Whether the record is skipped, whether its headers are accepted and whether its
  pass raises do not depend on its name: they are the same for every other name. When the
  loop reaches the record, its status is not \<open>sent\<close> and its headers are accepted, the
  message built from it is sent. When the name cell is empty or all whitespace, the
  trimmed name is empty and the body of the message is the template with \<open>{name}\<close>
  replaced by the empty string.
\<close>

theorem empty_name_included:
  "scan_columns 0 all_data = Some c \<and> name_idx c \<noteq> - 1 \<and> email_idx c \<noteq> - 1 \<and>
   prepare_records c (header_row_num c + 1) (drop (header_row_num c) all_data) = Some rs \<and>
   header_row_num c \<le> j \<and> j < length all_data \<and> qualifies c (all_data ! j) \<longrightarrow>
     (\<exists>i<length rs.
        rs ! i = contact_of c (j + 1) (all_data ! j) \<and> row_number (rs ! i) = j + 1 \<and>
        Name (rs ! i) = all_data ! j ! nat (name_idx c) \<and>
        (\<forall>x. already_sent ((rs ! i)\<lparr>Name := x\<rparr>) = already_sent (rs ! i) \<and>
             message_ok cfg env ((rs ! i)\<lparr>Name := x\<rparr>) = message_ok cfg env (rs ! i) \<and>
             pass_error cfg env i ((rs ! i)\<lparr>Name := x\<rparr>) = pass_error cfg env i (rs ! i) \<and>
             pass_returns cfg env i ((rs ! i)\<lparr>Name := x\<rparr>) = pass_returns cfg env i (rs ! i)) \<and>
        (login_ok env \<and> (\<forall>m<i. pass_returns cfg env m (rs ! m)) \<and>
         \<not> already_sent (rs ! i) \<and> message_ok cfg env (rs ! i) \<longrightarrow>
           SendMessage (build_message cfg (rs ! i)) \<in>
             set (trace (snd (send_emails cfg env all_data st)))) \<and>
        ((\<forall>ch \<in> set (all_data ! j ! nat (name_idx c)). isspace ch) \<longrightarrow>
           strip (Name (rs ! i)) = [] \<and>
           Content (build_message cfg (rs ! i)) =
             py_replace (py_replace (email_body cfg) ''{name}'' []) ''{business}''
               (strip (Business (rs ! i)))))"
proof
  assume "scan_columns 0 all_data = Some c \<and> name_idx c \<noteq> - 1 \<and> email_idx c \<noteq> - 1 \<and>
   prepare_records c (header_row_num c + 1) (drop (header_row_num c) all_data) = Some rs \<and>
   header_row_num c \<le> j \<and> j < length all_data \<and> qualifies c (all_data ! j)"
  then have h: "scan_columns 0 all_data = Some c" "name_idx c \<noteq> - 1" "email_idx c \<noteq> - 1"
    "prepare_records c (header_row_num c + 1) (drop (header_row_num c) all_data) = Some rs"
    and j: "header_row_num c \<le> j" "j < length all_data" "qualifies c (all_data ! j)"
    by simp_all
  from found_records [OF h(1,2,4)] have rs: "rs = records_after c (header_row_num c) all_data"
    by simp
  from records_after_has [OF j] have "contact_of c (j + 1) (all_data ! j) \<in> set rs"
    unfolding rs .
  then obtain i where i: "i < length rs" "rs ! i = contact_of c (j + 1) (all_data ! j)"
    by (auto simp: in_set_conv_nth)
  let ?r = "rs ! i"
  have num: "row_number ?r = j + 1" unfolding i(2) by (simp add: contact_of_def)
  have nm: "Name ?r = all_data ! j ! nat (name_idx c)" unfolding i(2) by (simp add: contact_of_def)
  have indep: "\<forall>x. already_sent (?r\<lparr>Name := x\<rparr>) = already_sent ?r \<and>
      message_ok cfg env (?r\<lparr>Name := x\<rparr>) = message_ok cfg env ?r \<and>
      pass_error cfg env i (?r\<lparr>Name := x\<rparr>) = pass_error cfg env i ?r \<and>
      pass_returns cfg env i (?r\<lparr>Name := x\<rparr>) = pass_returns cfg env i ?r"
    by (simp add: pass_error_eq pass_returns_def already_sent_def message_ok_def)
  have sent: "login_ok env \<and> (\<forall>m<i. pass_returns cfg env m (rs ! m)) \<and>
      \<not> already_sent ?r \<and> message_ok cfg env ?r \<longrightarrow>
      SendMessage (build_message cfg ?r) \<in> set (trace (snd (send_emails cfg env all_data st)))"
  proof
    assume a: "login_ok env \<and> (\<forall>m<i. pass_returns cfg env m (rs ! m)) \<and>
      \<not> already_sent ?r \<and> message_ok cfg env ?r"
    then have l: "login_ok env" and e: "\<forall>m<i. pass_returns cfg env m (rs ! m)"
      and ns: "\<not> already_sent ?r" and ok: "message_ok cfg env ?r" by simp_all
    from ns ok have "SendMessage (build_message cfg ?r) \<in>
        set (record_events cfg env (status_idx c) i ?r)"
      by (simp add: record_events_eq)
    with pass_reached [OF h l i(1) e, of st]
    show "SendMessage (build_message cfg ?r) \<in> set (trace (snd (send_emails cfg env all_data st)))"
      by blast
  qed
  have blank: "(\<forall>ch \<in> set (all_data ! j ! nat (name_idx c)). isspace ch) \<longrightarrow>
      strip (Name ?r) = [] \<and>
      Content (build_message cfg ?r) =
        py_replace (py_replace (email_body cfg) ''{name}'' []) ''{business}'' (strip (Business ?r))"
  proof
    assume "\<forall>ch \<in> set (all_data ! j ! nat (name_idx c)). isspace ch"
    then have "strip (Name ?r) = []" unfolding nm by (rule strip_blank)
    then show "strip (Name ?r) = [] \<and>
      Content (build_message cfg ?r) =
        py_replace (py_replace (email_body cfg) ''{name}'' []) ''{business}'' (strip (Business ?r))"
      by (simp add: build_message_def render_body_def)
  qed
  from i num nm indep sent blank
  show "\<exists>i<length rs.
        rs ! i = contact_of c (j + 1) (all_data ! j) \<and> row_number (rs ! i) = j + 1 \<and>
        Name (rs ! i) = all_data ! j ! nat (name_idx c) \<and>
        (\<forall>x. already_sent ((rs ! i)\<lparr>Name := x\<rparr>) = already_sent (rs ! i) \<and>
             message_ok cfg env ((rs ! i)\<lparr>Name := x\<rparr>) = message_ok cfg env (rs ! i) \<and>
             pass_error cfg env i ((rs ! i)\<lparr>Name := x\<rparr>) = pass_error cfg env i (rs ! i) \<and>
             pass_returns cfg env i ((rs ! i)\<lparr>Name := x\<rparr>) = pass_returns cfg env i (rs ! i)) \<and>
        (login_ok env \<and> (\<forall>m<i. pass_returns cfg env m (rs ! m)) \<and>
         \<not> already_sent (rs ! i) \<and> message_ok cfg env (rs ! i) \<longrightarrow>
           SendMessage (build_message cfg (rs ! i)) \<in>
             set (trace (snd (send_emails cfg env all_data st)))) \<and>
        ((\<forall>ch \<in> set (all_data ! j ! nat (name_idx c)). isspace ch) \<longrightarrow>
           strip (Name (rs ! i)) = [] \<and>
           Content (build_message cfg (rs ! i)) =
             py_replace (py_replace (email_body cfg) ''{name}'' []) ''{business}''
               (strip (Business (rs ! i))))"
    by (intro exI [of _ i] conjI)
qed

theorem empty_name_included_witness:
  "SendMessage \<lparr>From = ''me@x.com'', To = ''eve@x.com'', Subject = ''Hello'',
                Content = ''Hi , re ''\<rparr> \<in>
     set (trace (snd (send_emails demo_cfg demo_env blank_name_grid demo_state)))"
proof -
  let ?c = "\<lparr>name_idx = 0, email_idx = 1, status_idx = 2, business_idx = - 1,
      header_row_num = 1\<rparr>"
  let ?r = "\<lparr>Name = '' '', Email = ''eve@x.com'', Business = [], Status = ''failed'',
      row_number = 2\<rparr>"
  have pre: "scan_columns 0 blank_name_grid = Some ?c \<and> name_idx ?c \<noteq> - 1 \<and>
     email_idx ?c \<noteq> - 1 \<and>
     prepare_records ?c (header_row_num ?c + 1) (drop (header_row_num ?c) blank_name_grid) =
       Some [?r] \<and>
     header_row_num ?c \<le> 1 \<and> 1 < length blank_name_grid \<and> qualifies ?c (blank_name_grid ! 1)"
    by (simp add: blank_name_grid_def qualifies_def py_nth_def string_ops)
  note inst = mp [OF empty_name_included [where all_data = blank_name_grid and c = ?c
      and rs = "[?r]" and j = 1 and env = demo_env and cfg = demo_cfg and st = demo_state] pre]
  from inst obtain i where i: "i < length [?r]"
    and sent: "login_ok demo_env \<and> (\<forall>m<i. pass_returns demo_cfg demo_env m ([?r] ! m)) \<and>
         \<not> already_sent ([?r] ! i) \<and> message_ok demo_cfg demo_env ([?r] ! i) \<longrightarrow>
           SendMessage (build_message demo_cfg ([?r] ! i)) \<in>
             set (trace (snd (send_emails demo_cfg demo_env blank_name_grid demo_state)))"
    and blank: "(\<forall>ch \<in> set (blank_name_grid ! 1 ! nat (name_idx ?c)). isspace ch) \<longrightarrow>
           strip (Name ([?r] ! i)) = [] \<and>
           Content (build_message demo_cfg ([?r] ! i)) =
             py_replace (py_replace (email_body demo_cfg) ''{name}'' []) ''{business}''
               (strip (Business ([?r] ! i)))"
    by (elim exE conjE)
  from i have i0: "i = 0" by simp
  have cond: "login_ok demo_env \<and> (\<forall>m<0. pass_returns demo_cfg demo_env m ([?r] ! m)) \<and>
      \<not> already_sent ?r \<and> message_ok demo_cfg demo_env ?r"
    by (simp add: demo_env_def demo_cfg_def already_sent_def message_ok_def no_line_breaks_def
        string_ops)
  with sent have m: "SendMessage (build_message demo_cfg ?r) \<in>
      set (trace (snd (send_emails demo_cfg demo_env blank_name_grid demo_state)))"
    unfolding i0 by simp
  have "\<forall>ch \<in> set (blank_name_grid ! 1 ! nat (name_idx ?c)). isspace ch"
    by (simp add: blank_name_grid_def isspace_def whitespace_def)
  with blank have "Content (build_message demo_cfg ?r) =
      py_replace (py_replace (email_body demo_cfg) ''{name}'' []) ''{business}''
        (strip (Business ?r))"
    unfolding i0 by simp
  then have "Content (build_message demo_cfg ?r) = ''Hi , re ''"
    by (simp add: demo_cfg_def py_replace_def strip_def)
  moreover have "From (build_message demo_cfg ?r) = ''me@x.com''"
    "To (build_message demo_cfg ?r) = ''eve@x.com''"
    "Subject (build_message demo_cfg ?r) = ''Hello''"
    by (simp_all add: build_message_def demo_cfg_def strip_def isspace_def whitespace_def)
  ultimately have "build_message demo_cfg ?r =
      \<lparr>From = ''me@x.com'', To = ''eve@x.com'', Subject = ''Hello'', Content = ''Hi , re ''\<rparr>"
    by (cases "build_message demo_cfg ?r") simp
  with m show ?thesis by simp
qed

subsection \<open>Text replacement\<close>

lemma replace_from_absent:
  "\<not> (\<exists>a b. s = a @ old @ b) \<Longrightarrow> replace_from s old new = s"
proof (induction s)
  case Nil
  show ?case by simp
next
  case (Cons c cs)
  have "take (length old) (c # cs) \<noteq> old"
  proof
    assume "take (length old) (c # cs) = old"
    then have "c # cs = [] @ old @ drop (length old) (c # cs)"
      by (metis append_Nil append_take_drop_id)
    with Cons.prems show False by blast
  qed
  moreover have "\<not> (\<exists>a b. cs = a @ old @ b)"
  proof
    assume "\<exists>a b. cs = a @ old @ b"
    then obtain a b where "cs = a @ old @ b" by blast
    then have "c # cs = (c # a) @ old @ b" by simp
    with Cons.prems show False by blast
  qed
  ultimately show ?case using Cons.IH by simp
qed

lemma replace_from_token:
  "old \<noteq> [] \<Longrightarrow> replace_from (old @ rest) old new = new @ replace_from rest old new"
  by (cases old) simp_all

lemma take_append_cases:
  assumes "take (length ys) (s @ t) = ys"
  shows "take (length ys) s = ys \<or> take (length s) ys = s"
proof (cases "length ys \<le> length s")
  case True
  with assms show ?thesis by simp
next
  case False
  with assms have "ys = s @ take (length ys - length s) t" by simp
  then have "take (length s) ys = take (length s) (s @ take (length ys - length s) t)" by simp
  then show ?thesis by simp
qed

lemma meets_end:
  assumes "s \<noteq> []" "take (length ys) s = ys \<or> take (length s) ys = s"
  shows "meets (u @ s) ys"
proof (induction u)
  case Nil
  from assms show ?case by (cases s) auto
next
  case (Cons a u)
  then show ?case by simp
qed

text \<open>A text that does not meet \<open>old\<close> is copied when it stands at the head.\<close>

lemma replace_from_copy:
  assumes "\<not> meets n old"
  shows "replace_from (n @ rest) old new = n @ replace_from rest old new"
  using assms
proof (induction n)
  case Nil
  show ?case by simp
next
  case (Cons x xs)
  from Cons.prems have a: "take (length old) (x # xs) \<noteq> old"
    and b: "take (length (x # xs)) old \<noteq> x # xs" and c: "\<not> meets xs old" by simp_all
  have "take (length old) ((x # xs) @ rest) \<noteq> old"
  proof
    assume "take (length old) ((x # xs) @ rest) = old"
    from take_append_cases [OF this] a b show False by blast
  qed
  then have "replace_from ((x # xs) @ rest) old new = x # replace_from (xs @ rest) old new"
    by simp
  with Cons.IH [OF c] show ?case by simp
qed

text \<open>
  When the text after the replacement of \<open>old\<close> by \<open>n\<close> starts with an end piece \<open>v\<close> of
  \<open>w\<close>, and \<open>w\<close> does not meet \<open>n\<close>, the text before the replacement starts with \<open>v\<close> too.
\<close>

lemma replace_from_start:
  assumes "\<not> meets w n"
  shows "w = u @ v \<Longrightarrow> v \<noteq> [] \<Longrightarrow> take (length v) (replace_from cs old n) = v \<Longrightarrow>
         take (length v) cs = v"
proof (induction cs arbitrary: u v)
  case Nil
  then show ?case by simp
next
  case (Cons d ds)
  show ?case
  proof (cases "take (length old) (d # ds) = old")
    case True
    with Cons.prems(3) have "take (length v) (n @ replace_from (drop (length old - 1) ds) old n) = v"
      by simp
    from take_append_cases [OF this] have "take (length n) v = n \<or> take (length v) n = v"
      by blast
    with meets_end [OF Cons.prems(2), of n u] Cons.prems(1) assms show ?thesis by blast
  next
    case False
    with Cons.prems(3) have t: "take (length v) (d # replace_from ds old n) = v" by simp
    from Cons.prems(2) obtain v0 v' where v: "v = v0 # v'" by (cases v) auto
    from t v have d: "d = v0" and t': "take (length v') (replace_from ds old n) = v'"
      by simp_all
    show ?thesis
    proof (cases "v' = []")
      case True
      with v d show ?thesis by simp
    next
      case ne: False
      have "w = (u @ [v0]) @ v'" using Cons.prems(1) v by simp
      from Cons.IH [OF this ne t'] have "take (length v') ds = v'" .
      with v d show ?thesis by simp
    qed
  qed
qed

text \<open>The two replacements one after the other against the substitution in one reading.\<close>

lemma replace_twice_substitute:
  assumes "\<not> meets n t2" "\<not> meets t2 n" "\<not> meets t2 t1" "t2 \<noteq> []"
  shows "replace_from (replace_from body t1 n) t2 b = substitute_both t1 t2 body n b"
  using assms
proof (induction t1 t2 body n b rule: substitute_both.induct)
  case (1 t1 t2 v1 v2)
  show ?case by simp
next
  case (2 t1 t2 c cs v1 v2)
  show ?case
  proof (cases "take (length t1) (c # cs) = t1")
    case True
    have "replace_from (replace_from (c # cs) t1 v1) t2 v2 =
        replace_from (v1 @ replace_from (drop (length t1 - 1) cs) t1 v1) t2 v2"
      using True by simp
    also have "\<dots> = v1 @ replace_from (replace_from (drop (length t1 - 1) cs) t1 v1) t2 v2"
      by (rule replace_from_copy [OF "2.prems"(1)])
    also have "\<dots> = v1 @ substitute_both t1 t2 (drop (length t1 - 1) cs) v1 v2"
      using "2.IH"(1) [OF True "2.prems"] by simp
    finally show ?thesis using True by simp
  next
    case n1: False
    show ?thesis
    proof (cases "take (length t2) (c # cs) = t2")
      case True
      from "2.prems"(4) have l: "length t2 = Suc (length t2 - 1)" by (cases t2) simp_all
      have "take (length t2) (c # cs) @ drop (length t2) (c # cs) = c # cs"
        by (rule append_take_drop_id)
      moreover have "drop (length t2) (c # cs) = drop (length t2 - 1) cs"
        by (subst l) simp
      ultimately have split: "c # cs = t2 @ drop (length t2 - 1) cs" using True by simp
      have "replace_from (c # cs) t1 v1 = t2 @ replace_from (drop (length t2 - 1) cs) t1 v1"
        by (subst split) (rule replace_from_copy [OF "2.prems"(3)])
      then have "replace_from (replace_from (c # cs) t1 v1) t2 v2 =
          v2 @ replace_from (replace_from (drop (length t2 - 1) cs) t1 v1) t2 v2"
        by (simp only: replace_from_token [OF "2.prems"(4)])
      also have "\<dots> = v2 @ substitute_both t1 t2 (drop (length t2 - 1) cs) v1 v2"
        using "2.IH"(2) [OF n1 True "2.prems"] by simp
      finally show ?thesis using n1 True by simp
    next
      case n2: False
      have first: "replace_from (c # cs) t1 v1 = c # replace_from cs t1 v1"
        using n1 by simp
      have "take (length t2) (c # replace_from cs t1 v1) \<noteq> t2"
      proof
        assume a: "take (length t2) (c # replace_from cs t1 v1) = t2"
        from "2.prems"(4) obtain h v where t2: "t2 = h # v" by (cases t2) auto
        from a t2 have h: "h = c" and tv: "take (length v) (replace_from cs t1 v1) = v"
          by simp_all
        have "take (length v) cs = v"
        proof (cases "v = []")
          case True
          then show ?thesis by simp
        next
          case False
          have "t2 = [h] @ v" using t2 by simp
          from replace_from_start [OF "2.prems"(2) this False tv] show ?thesis .
        qed
        with t2 h have "take (length t2) (c # cs) = t2" by simp
        with n2 show False by simp
      qed
      then have "replace_from (replace_from (c # cs) t1 v1) t2 v2 =
          c # replace_from (replace_from cs t1 v1) t2 v2"
        unfolding first by simp
      also have "\<dots> = c # substitute_both t1 t2 cs v1 v2"
        using "2.IH"(3) [OF n1 n2 "2.prems"] by simp
      finally show ?thesis using n1 n2 by simp
    qed
  qed
qed

lemma no_business_column:
  "prepare_records c i rows = Some rs \<Longrightarrow> business_idx c = - 1 \<Longrightarrow>
   \<forall>r \<in> set rs. Business r = []"
proof (induction rows arbitrary: i rs)
  case Nil
  then show ?case by simp
next
  case (Cons row rest)
  show ?case
  proof (cases "int (length row) > max (name_idx c) (email_idx c)")
    case False
    with Cons.prems have "prepare_records c (i + 1) rest = Some rs" by auto
    from Cons.IH [OF this Cons.prems(2)] show ?thesis .
  next
    case True
    show ?thesis
    proof (cases "py_nth row (email_idx c)")
      case None
      with True Cons.prems show ?thesis by auto
    next
      case (Some em)
      show ?thesis
      proof (cases "strip em \<noteq> []")
        case False
        with True Some Cons.prems have "prepare_records c (i + 1) rest = Some rs" by auto
        from Cons.IH [OF this Cons.prems(2)] show ?thesis .
      next
        case keep: True
        from True Some keep Cons.prems obtain nm stt rs' where
          rs': "prepare_records c (i + 1) rest = Some rs'"
          "rs = \<lparr>Name = nm, Email = em, Business = [], Status = stt, row_number = i\<rparr> # rs'"
          by (auto split: bind_splits if_splits)
        from Cons.IH [OF rs'(1) Cons.prems(2)] rs'(2) show ?thesis by simp
      qed
    qed
  qed
qed

subsection \<open>Template rendering\<close>

text \<open>
  Claim C5, as the code has it. The body of a message is rendered from the trimmed name
  and business of the record by two replacements, one after the other: every \<open>{name}\<close>
  of the template is replaced by the name, then every \<open>{business}\<close> of the text so
  obtained by the business. For every template and every business, and every name that
  does not meet \<open>{business}\<close> and that \<open>{business}\<close> does not meet, the result is the
  template with each of the two tokens substituted by its value and every other character
  copied: other text in braces and unmatched braces stay. A template in which neither token
  occurs is returned unchanged, for every name. When the sheet has no business column the
  business of every record is empty, and \<open>{business}\<close> is replaced by the empty string. The
  two examples of the specification hold.
\<close>

theorem template_rendering:
  "Content (build_message cfg r) =
     render_body (email_body cfg) (strip (Name r)) (strip (Business r)) \<and>
   render_body body name business =
     py_replace (py_replace body ''{name}'' name) ''{business}'' business \<and>
   (\<not> meets name ''{business}'' \<and> \<not> meets ''{business}'' name \<longrightarrow>
      render_body body name business = substitute_tokens body name business) \<and>
   (\<not> (\<exists>a b. body = a @ ''{name}'' @ b) \<and> \<not> (\<exists>a b. body = a @ ''{business}'' @ b) \<longrightarrow>
      render_body body name business = body) \<and>
   (prepare_records c i rows = Some rs \<and> business_idx c = - 1 \<longrightarrow>
      (\<forall>q \<in> set rs. strip (Business q) = [] \<and>
         Content (build_message cfg q) =
           py_replace (py_replace (email_body cfg) ''{name}'' (strip (Name q)))
             ''{business}'' [])) \<and>
   render_body ''Hi {name}, re {business}'' ''Ana'' ''Acme'' = ''Hi Ana, re Acme'' \<and>
   render_body ''Hi {name}, re {business}'' ''Ana'' [] = ''Hi Ana, re ''"
proof (intro conjI impI)
  show "Content (build_message cfg r) =
     render_body (email_body cfg) (strip (Name r)) (strip (Business r))"
    by (simp add: build_message_def)
  show "render_body body name business =
     py_replace (py_replace body ''{name}'' name) ''{business}'' business"
    by (simp add: render_body_def)
  show "render_body body name business = substitute_tokens body name business"
    if "\<not> meets name ''{business}'' \<and> \<not> meets ''{business}'' name"
  proof -
    from that have a: "\<not> meets name ''{business}''" and b: "\<not> meets ''{business}'' name"
      by simp_all
    have c: "\<not> meets ''{business}'' ''{name}''" by simp
    have d: "''{business}'' \<noteq> []" by simp
    from replace_twice_substitute [OF a b c d, of body business]
    show ?thesis by (simp add: render_body_def py_replace_def substitute_tokens_def)
  qed
  show "render_body body name business = body"
    if "\<not> (\<exists>a b. body = a @ ''{name}'' @ b) \<and> \<not> (\<exists>a b. body = a @ ''{business}'' @ b)"
  proof -
    from that have an: "\<not> (\<exists>a b. body = a @ ''{name}'' @ b)"
      and ab: "\<not> (\<exists>a b. body = a @ ''{business}'' @ b)"
      by blast+
    have n: "replace_from body ''{name}'' name = body"
      by (rule replace_from_absent [OF an])
    have b: "replace_from body ''{business}'' business = body"
      by (rule replace_from_absent [OF ab])
    show ?thesis by (simp add: render_body_def py_replace_def n b)
  qed
  show "\<forall>q \<in> set rs. strip (Business q) = [] \<and>
         Content (build_message cfg q) =
           py_replace (py_replace (email_body cfg) ''{name}'' (strip (Name q)))
             ''{business}'' []"
    if "prepare_records c i rows = Some rs \<and> business_idx c = - 1"
  proof
    fix q assume "q \<in> set rs"
    with that no_business_column [of c i rows rs] have "Business q = []" by blast
    then have "strip (Business q) = []" by (simp add: strip_def)
    then show "strip (Business q) = [] \<and>
         Content (build_message cfg q) =
           py_replace (py_replace (email_body cfg) ''{name}'' (strip (Name q)))
             ''{business}'' []"
      by (simp add: build_message_def render_body_def)
  qed
  show "render_body ''Hi {name}, re {business}'' ''Ana'' ''Acme'' = ''Hi Ana, re Acme''"
    by (simp add: render_body_def py_replace_def)
  show "render_body ''Hi {name}, re {business}'' ''Ana'' [] = ''Hi Ana, re ''"
    by (simp add: render_body_def py_replace_def)
qed

theorem template_rendering_witness:
  "render_body ''Dear {name} of {business}: {notes} {b} {business name} a{'' ''Ana'' ''Acme'' =
     ''Dear Ana of Acme: {notes} {b} {business name} a{'' \<and>
   render_body ''Hello there'' ''Ana'' ''Acme'' = ''Hello there'' \<and>
   map (\<lambda>q. strip (Business q))
     [\<lparr>Name = ''Bob'', Email = ''bob@x.com'', Business = [], Status = [], row_number = 2\<rparr>] =
     [[]]"
proof -
  let ?c = "\<lparr>name_idx = 0, email_idx = 1, status_idx = 2, business_idx = - 1,
      header_row_num = 1\<rparr>"
  let ?r = "\<lparr>Name = ''Bob'', Email = ''bob@x.com'', Business = [], Status = [], row_number = 2\<rparr>"
  note t1 = template_rendering [where cfg = demo_cfg and r = ?r
      and body = "''Dear {name} of {business}: {notes} {b} {business name} a{''"
      and name = "''Ana''" and business = "''Acme''"
      and c = ?c and i = 2 and rows = "[[''Bob'', ''bob@x.com'']]" and rs = "[?r]"]
  note t2 = template_rendering [where cfg = demo_cfg and r = ?r and body = "''Hello there''"
      and name = "''Ana''" and business = "''Acme''"
      and c = ?c and i = 2 and rows = "[[''Bob'', ''bob@x.com'']]" and rs = "[?r]"]
  have p: "\<not> meets ''Ana'' ''{business}'' \<and> \<not> meets ''{business}'' ''Ana''"
    by simp
  from t1 p have "render_body ''Dear {name} of {business}: {notes} {b} {business name} a{''
      ''Ana'' ''Acme'' =
    substitute_tokens ''Dear {name} of {business}: {notes} {b} {business name} a{''
      ''Ana'' ''Acme''"
    by blast
  then have a: "render_body ''Dear {name} of {business}: {notes} {b} {business name} a{''
      ''Ana'' ''Acme'' = ''Dear Ana of Acme: {notes} {b} {business name} a{''"
    by (simp add: substitute_tokens_def)
  have no: "\<not> (\<exists>a b. ''Hello there'' = a @ tok @ b)" if "CHR ''{'' \<in> set tok" for tok
  proof
    assume "\<exists>a b. ''Hello there'' = a @ tok @ b"
    then obtain a b where eq: "''Hello there'' = a @ tok @ b" by blast
    from that have "CHR ''{'' \<in> set (a @ tok @ b)" by simp
    then have "CHR ''{'' \<in> set ''Hello there''" by (simp only: eq [symmetric])
    then show False by simp
  qed
  have "\<not> (\<exists>a b. ''Hello there'' = a @ ''{name}'' @ b) \<and>
      \<not> (\<exists>a b. ''Hello there'' = a @ ''{business}'' @ b)"
    by (intro conjI no) simp_all
  with t2 have b: "render_body ''Hello there'' ''Ana'' ''Acme'' = ''Hello there''"
    by blast
  have "prepare_records ?c 2 [[''Bob'', ''bob@x.com'']] = Some [?r] \<and> business_idx ?c = - 1"
    by (simp add: py_nth_def strip_def isspace_def whitespace_def)
  with t2 have "\<forall>q \<in> set [?r]. strip (Business q) = [] \<and>
         Content (build_message demo_cfg q) =
           py_replace (py_replace (email_body demo_cfg) ''{name}'' (strip (Name q)))
             ''{business}'' []" by blast
  then have c: "map (\<lambda>q. strip (Business q)) [?r] = [[]]" by simp
  from a b c show ?thesis by (intro conjI)
qed

theorem template_rendering_counterexample:
  "render_body ''Hi {name}'' ''{business}'' ''Acme'' = ''Hi Acme'' \<and>
   substitute_tokens ''Hi {name}'' ''{business}'' ''Acme'' = ''Hi {business}'' \<and>
   render_body ''{busi{name}ness}'' [] ''Acme'' = ''Acme'' \<and>
   substitute_tokens ''{busi{name}ness}'' [] ''Acme'' = ''{business}'' \<and>
   render_body ''{bus{name}ness}'' ''i'' ''Acme'' = ''Acme'' \<and>
   substitute_tokens ''{bus{name}ness}'' ''i'' ''Acme'' = ''{business}'' \<and>
   render_body ''{name}business}'' ''{'' ''Acme'' = ''Acme'' \<and>
   substitute_tokens ''{name}business}'' ''{'' ''Acme'' = ''{business}'' \<and>
   render_body ''{business{name}'' ''}'' ''Acme'' = ''Acme'' \<and>
   substitute_tokens ''{business{name}'' ''}'' ''Acme'' = ''{business}''"
  by (simp add: render_body_def py_replace_def substitute_tokens_def)

end
